theory Spec2Isabelle
  imports Complex_Main "HOL-Library.Sublist" "HOL-Library.Multiset"
begin

section \<open>Strings\<close>

text \<open>
  Python strings are modelled as \<^typ>\<open>string\<close>, one \<^typ>\<open>char\<close> per character, for
  ASCII text: \<open>str.lower\<close> maps the letters A to Z and leaves every other character
  alone, \<open>\w\<close> is a letter, a digit or the underscore, and \<open>str.isspace\<close> holds
  for the ASCII white space characters (9 to 13, 28 to 32).
\<close>

definition lower_char :: "char \<Rightarrow> char" where
  "lower_char c =
     (case map_of (zip ''ABCDEFGHIJKLMNOPQRSTUVWXYZ'' ''abcdefghijklmnopqrstuvwxyz'') c of
        Some d \<Rightarrow> d
      | None \<Rightarrow> c)"

definition lower :: "string \<Rightarrow> string" where
  "lower s = map lower_char s"

text \<open>\<open>re.sub(r'^https?://', '', url)\<close>: the pattern is anchored at the start of the
  string and carries no flag, so it removes one lower-case scheme prefix.\<close>

definition sub_scheme :: "string \<Rightarrow> string" where
  "sub_scheme s =
     (if prefix ''http://'' s then drop 7 s
      else if prefix ''https://'' s then drop 8 s
      else s)"

text \<open>\<open>re.sub(r'^www\.', '', url)\<close>.\<close>

definition sub_www :: "string \<Rightarrow> string" where
  "sub_www s = (if prefix ''www.'' s then drop 4 s else s)"

text \<open>\<open>s.rstrip('/')\<close> removes every trailing slash.\<close>

definition rstrip_slash :: "string \<Rightarrow> string" where
  "rstrip_slash s = rev (dropWhile (\<lambda>c. c = CHR ''/'') (rev s))"

text \<open>\<open>s.split(sep)[0]\<close> for a one-character separator: the text before its first
  occurrence, the whole string when there is none.\<close>

definition split_first :: "char \<Rightarrow> string \<Rightarrow> string" where
  "split_first sep s = takeWhile (\<lambda>c. c \<noteq> sep) s"

section \<open>ResultSynthesizer: canonical URLs\<close>

text \<open>\<open>ResultSynthesizer._normalize_url\<close>, statement by statement.\<close>

definition normalize_url :: "string \<Rightarrow> string" where
  "normalize_url url =
     (let url1 = sub_scheme url;
          url2 = sub_www url1;
          url3 = rstrip_slash url2;
          url4 = split_first (CHR ''?'') url3;
          url5 = split_first (CHR ''#'') url4
      in lower url5)"

section \<open>ResultSynthesizer: data\<close>

text \<open>The dataclass \<open>SearchResult\<close>. The fields \<open>score\<close>, \<open>timestamp\<close> and \<open>metadata\<close> are
  read by none of the functions below and are left out.\<close>

record search_result =
  title :: string
  snippet :: string
  url :: string
  source :: string

text \<open>A dictionary \<open>engine name \<rightarrow> results\<close> keeps its insertion order: an association
  list.\<close>

type_synonym raw_results = "(string \<times> search_result list) list"

datatype error = ValueError | ZeroDivisionError | UncaughtBaseException

text \<open>\<open>_get_source_priority\<close>: \<open>priorities.get(source, 1)\<close>.\<close>

definition get_source_priority :: "string \<Rightarrow> nat" where
  "get_source_priority src =
     (case map_of [(''Wikipedia'', 5), (''Wikidata'', 4), (''SearXNG'', 3),
                   (''DuckDuckGo'', 2), (''Brave'', 2)] src of
        Some p \<Rightarrow> p
      | None \<Rightarrow> 1)"

text \<open>\<open>_is_content_similar\<close>. The parameter \<open>ratio_gt\<close> stands for the library call
  \<open>SequenceMatcher(None, a, b).ratio() > 0.8\<close>; an empty text is never similar to
  anything, before the library is asked.\<close>

definition is_content_similar :: "(string \<Rightarrow> string \<Rightarrow> bool) \<Rightarrow> string \<Rightarrow> string \<Rightarrow> bool" where
  "is_content_similar ratio_gt text1 text2 =
     (if text1 = [] \<or> text2 = [] then False else ratio_gt (lower text1) (lower text2))"

text \<open>Equal non-empty texts have ratio 1.0; this instance of the library call says
  nothing more than that.\<close>

definition same_text :: "string \<Rightarrow> string \<Rightarrow> bool" where
  "same_text a b = (a = b)"

section \<open>ResultSynthesizer: deduplication\<close>

text \<open>One iteration of the loop of \<open>_deduplicate\<close> on the state \<open>(seen_urls, unique)\<close>.
  \<open>unique.remove(existing)\<close> removes the first equal element and raises \<open>ValueError\<close>
  when there is none.\<close>

type_synonym dedup_state = "(string \<rightharpoonup> search_result) \<times> search_result list"

definition dedup_step ::
  "(string \<Rightarrow> string \<Rightarrow> bool) \<Rightarrow> dedup_state \<Rightarrow> search_result \<Rightarrow> error + dedup_state" where
  "dedup_step ratio_gt st result =
     (let seen_urls = fst st; unique = snd st; u = normalize_url (url result) in
      case seen_urls u of
        Some existing \<Rightarrow>
          if get_source_priority (source result) > get_source_priority (source existing)
          then (if existing \<in> set unique
                then Inr (seen_urls(u \<mapsto> result), remove1 existing unique @ [result])
                else Inl ValueError)
          else Inr (seen_urls, unique)
      | None \<Rightarrow>
          if list_ex (\<lambda>existing. is_content_similar ratio_gt (snippet result) (snippet existing))
               unique
          then Inr (seen_urls, unique)
          else Inr (seen_urls(u \<mapsto> result), unique @ [result]))"

fun dedup_loop ::
  "(string \<Rightarrow> string \<Rightarrow> bool) \<Rightarrow> dedup_state \<Rightarrow> search_result list \<Rightarrow> error + dedup_state" where
  "dedup_loop ratio_gt st [] = Inr st"
| "dedup_loop ratio_gt st (r # rs) =
     (case dedup_step ratio_gt st r of
        Inl e \<Rightarrow> Inl e
      | Inr st' \<Rightarrow> dedup_loop ratio_gt st' rs)"

definition deduplicate ::
  "(string \<Rightarrow> string \<Rightarrow> bool) \<Rightarrow> search_result list \<Rightarrow> error + search_result list" where
  "deduplicate ratio_gt results =
     (case dedup_loop ratio_gt (Map.empty, []) results of
        Inl e \<Rightarrow> Inl e
      | Inr st \<Rightarrow> Inr (snd st))"

section \<open>Deduplication: canonical keys, invariant, per-URL winner\<close>

text \<open>The key under which \<open>_deduplicate\<close> files a result.\<close>

definition canon :: "search_result \<Rightarrow> string" where
  "canon r = normalize_url (url r)"

text \<open>What the loop maintains: the kept results have pairwise different keys, and
  \<open>seen_urls\<close> maps exactly the key of each kept result to that result.\<close>

definition dedup_inv :: "dedup_state \<Rightarrow> bool" where
  "dedup_inv st \<longleftrightarrow>
     distinct (map canon (snd st)) \<and>
     (\<forall>u e. fst st u = Some e \<longleftrightarrow> e \<in> set (snd st) \<and> canon e = u)"

text \<open>The winner of a run of results with one key: the running maximum of the priority,
  replaced only by a strictly higher one.\<close>

fun best :: "search_result \<Rightarrow> search_result list \<Rightarrow> search_result" where
  "best e [] = e"
| "best e (r # rs) =
     best (if get_source_priority (source r) > get_source_priority (source e) then r else e) rs"

definition best_of :: "search_result list \<Rightarrow> search_result list" where
  "best_of g = (case g of [] \<Rightarrow> [] | x # xs \<Rightarrow> [best x xs])"

text \<open>No result of the list is content-similar to an earlier result of the list that has
  a different canonical URL; \<open>earlier\<close> holds the results before the current one.\<close>

fun no_near_duplicates_from ::
  "(string \<Rightarrow> string \<Rightarrow> bool) \<Rightarrow> search_result list \<Rightarrow> search_result list \<Rightarrow> bool" where
  "no_near_duplicates_from ratio_gt earlier [] = True"
| "no_near_duplicates_from ratio_gt earlier (r # rs) =
     (list_all (\<lambda>e. canon e = canon r
                  \<or> \<not> is_content_similar ratio_gt (snippet r) (snippet e)) earlier
      \<and> no_near_duplicates_from ratio_gt (earlier @ [r]) rs)"

definition no_near_duplicates :: "(string \<Rightarrow> string \<Rightarrow> bool) \<Rightarrow> search_result list \<Rightarrow> bool" where
  "no_near_duplicates ratio_gt rs = no_near_duplicates_from ratio_gt [] rs"

text \<open>The effect of one iteration on \<open>seen_urls\<close> when the similarity check does not
  fire.\<close>

definition seen_step :: "(string \<rightharpoonup> search_result) \<Rightarrow> search_result \<Rightarrow> (string \<rightharpoonup> search_result)" where
  "seen_step seen r =
     (case seen (canon r) of
        None \<Rightarrow> seen(canon r \<mapsto> r)
      | Some e \<Rightarrow> if get_source_priority (source r) > get_source_priority (source e)
                  then seen(canon r \<mapsto> r) else seen)"

text \<open>The order of first occurrence, and what it means for an output to list its results
  at the position where their canonical URL was first seen.\<close>

definition first_occurrences :: "'a list \<Rightarrow> 'a list" where
  "first_occurrences xs = rev (remdups (rev xs))"

definition in_encounter_order :: "search_result list \<Rightarrow> search_result list \<Rightarrow> bool" where
  "in_encounter_order rs out =
     (map canon out
        = filter (\<lambda>u. u \<in> set (map canon out)) (first_occurrences (map canon rs)))"

text \<open>Sample results.\<close>

definition page_ddg :: search_result where
  "page_ddg = \<lparr> title = ''Page'', snippet = [], url = ''https://a.com/x'',
                source = ''DuckDuckGo'' \<rparr>"

definition other_ddg :: search_result where
  "other_ddg = \<lparr> title = ''Other'', snippet = [], url = ''https://b.com/'',
                 source = ''DuckDuckGo'' \<rparr>"

definition page_wiki :: search_result where
  "page_wiki = \<lparr> title = ''Page'', snippet = [], url = ''http://www.a.com/x/'',
                 source = ''Wikipedia'' \<rparr>"

definition first_ddg :: search_result where
  "first_ddg = \<lparr> title = ''First'', snippet = ''same words'', url = ''https://a.com'',
                 source = ''DuckDuckGo'' \<rparr>"

definition copy_wiki :: search_result where
  "copy_wiki = \<lparr> title = ''Copy'', snippet = ''same words'', url = ''https://b.com'',
                 source = ''Wikipedia'' \<rparr>"

definition best_wiki :: search_result where
  "best_wiki = \<lparr> title = ''Best'', snippet = ''abc'', url = ''http://www.b.com'',
                 source = ''Wikipedia'' \<rparr>"

definition late_ddg :: search_result where
  "late_ddg = \<lparr> title = ''Late'', snippet = ''zzz'', url = ''https://b.com/'',
                source = ''DuckDuckGo'' \<rparr>"

section \<open>ResultSynthesizer: scoring\<close>

text \<open>Python floats are modelled as exact reals.\<close>

definition is_space :: "char \<Rightarrow> bool" where
  "is_space c = (c \<in> set [CHR 0x09, CHR 0x0A, CHR 0x0B, CHR 0x0C, CHR 0x0D,
                          CHR 0x1C, CHR 0x1D, CHR 0x1E, CHR 0x1F, CHR '' ''])"

text \<open>\<open>s.split()\<close>: the maximal runs of characters that are not white space.\<close>

fun split_ws_aux :: "string \<Rightarrow> string \<Rightarrow> string list" where
  "split_ws_aux cur [] = (if cur = [] then [] else [cur])"
| "split_ws_aux cur (c # cs) =
     (if is_space c
      then (if cur = [] then split_ws_aux [] cs else cur # split_ws_aux [] cs)
      else split_ws_aux (cur @ [c]) cs)"

definition split_ws :: "string \<Rightarrow> string list" where
  "split_ws s = split_ws_aux [] s"

record scores =
  relevance :: real
  authority :: real
  consensus :: real
  quality :: real

record scored_result =
  sr_title :: string
  sr_snippet :: string
  sr_url :: string
  sr_source :: string
  sr_scores :: scores
  final_score :: real

text \<open>\<open>_calculate_relevance\<close>; the two word sets are kept as duplicate-free lists.\<close>

definition calculate_relevance :: "search_result \<Rightarrow> string list \<Rightarrow> real" where
  "calculate_relevance result query_keywords =
     (let text = lower (title result @ '' '' @ snippet result);
          ws = remdups (split_ws text);
          intersection = filter (\<lambda>w. w \<in> set ws) query_keywords;
          union = remdups (query_keywords @ ws)
      in if union = [] then 0
         else real (length intersection) / real (length union))"

text \<open>\<open>_calculate_consensus\<close>: the engines with a result of the same canonical URL.\<close>

definition calculate_consensus :: "search_result \<Rightarrow> raw_results \<Rightarrow> real" where
  "calculate_consensus result raw =
     (let u = normalize_url (url result);
          count = length (filter (\<lambda>engine_results.
                     list_ex (\<lambda>r. normalize_url (url r) = u) engine_results) (map snd raw))
      in min (real count / 5) 1)"

definition calculate_quality :: "search_result \<Rightarrow> real" where
  "calculate_quality result =
     (let snippet_len = length (snippet result) in
      if snippet_len = 0 then 0
      else if snippet_len < 50 then 3 / 10
      else if snippet_len < 150 then 7 / 10
      else 1)"

definition score_result :: "string list \<Rightarrow> raw_results \<Rightarrow> search_result \<Rightarrow> scored_result" where
  "score_result query_keywords raw result =
     (let sc = \<lparr> relevance = calculate_relevance result query_keywords,
                 authority = real (get_source_priority (source result)) / 5,
                 consensus = calculate_consensus result raw,
                 quality = calculate_quality result \<rparr>;
          final = relevance sc * (4 / 10) + authority sc * (3 / 10)
                    + consensus sc * (2 / 10) + quality sc * (1 / 10)
      in \<lparr> sr_title = title result, sr_snippet = snippet result, sr_url = url result,
           sr_source = source result, sr_scores = sc, final_score = final \<rparr>)"

definition score_results :: "string \<Rightarrow> search_result list \<Rightarrow> raw_results \<Rightarrow> scored_result list" where
  "score_results query results raw =
     (let query_keywords = remdups (split_ws (lower query))
      in map (score_result query_keywords raw) results)"

text \<open>All four components and the final score lie in the unit interval, and the final
  score is the weighted sum of the components.\<close>

definition scores_in_range :: "scored_result \<Rightarrow> bool" where
  "scores_in_range sr =
     (0 \<le> relevance (sr_scores sr) \<and> relevance (sr_scores sr) \<le> 1
      \<and> 0 \<le> authority (sr_scores sr) \<and> authority (sr_scores sr) \<le> 1
      \<and> 0 \<le> consensus (sr_scores sr) \<and> consensus (sr_scores sr) \<le> 1
      \<and> 0 \<le> quality (sr_scores sr) \<and> quality (sr_scores sr) \<le> 1
      \<and> final_score sr = 4 / 10 * relevance (sr_scores sr) + 3 / 10 * authority (sr_scores sr)
                          + 2 / 10 * consensus (sr_scores sr) + 1 / 10 * quality (sr_scores sr)
      \<and> 0 \<le> final_score sr \<and> final_score sr \<le> 1)"

section \<open>ResultSynthesizer: ranking, summary, synthesis\<close>

text \<open>\<open>sorted(xs, key=..., reverse=True)\<close> is a stable sort into non-increasing key order:
  elements with equal keys keep their order.\<close>

definition sorted_reverse :: "scored_result list \<Rightarrow> scored_result list" where
  "sorted_reverse xs = sort_key (\<lambda>x. - final_score x) xs"

text \<open>The slice \<open>xs[:m]\<close>; \<open>None\<close> keeps everything, a negative bound counts from the end.\<close>

definition slice_to :: "int option \<Rightarrow> 'a list \<Rightarrow> 'a list" where
  "slice_to m xs =
     (case m of
        None \<Rightarrow> xs
      | Some k \<Rightarrow> if 0 \<le> k then take (nat k) xs else take (length xs - nat (- k)) xs)"

fun str_nat :: "nat \<Rightarrow> string" where
  "str_nat n =
     (if n < 10 then [''0123456789'' ! n]
      else str_nat (n div 10) @ [''0123456789'' ! (n mod 10)])"

fun join :: "string \<Rightarrow> string list \<Rightarrow> string" where
  "join sep [] = []"
| "join sep [x] = x"
| "join sep (x # y # ys) = x @ sep @ join sep (y # ys)"

text \<open>\<open>_generate_summary\<close>. Python iterates \<open>set(top_sources)\<close> in an order of its own;
  \<open>set_order\<close> is that order, as a function of the duplicate-free list of sources.\<close>

definition generate_summary ::
  "(string list \<Rightarrow> string list) \<Rightarrow> scored_result list \<Rightarrow> raw_results \<Rightarrow> string" where
  "generate_summary set_order results raw =
     (if results = [] then ''No results found.''
      else
        let total_sources = sum_list (map (\<lambda>r. length (snd r)) raw);
            unique_count = length results;
            top_sources = map sr_source (take 3 results);
            sources_str = join '', '' (set_order (remdups top_sources));
            summary = ''Found '' @ str_nat unique_count @ '' relevant results from ''
                        @ str_nat total_sources @ '' total sources. ''
                        @ ''Top information from: '' @ sources_str @ ''. '';
            best_snippet = take 150 (sr_snippet (hd results))
        in summary @ ''Key finding: '' @ best_snippet @ ''...'')"

record synthesis =
  results :: "scored_result list"
  summary :: string
  engine_stats :: "(string \<times> nat) list"
  total_raw :: nat
  total_unique :: nat

text \<open>\<open>synthesize\<close>.\<close>

definition synthesize ::
  "(string \<Rightarrow> string \<Rightarrow> bool) \<Rightarrow> (string list \<Rightarrow> string list) \<Rightarrow>
     string \<Rightarrow> raw_results \<Rightarrow> int option \<Rightarrow> error + synthesis" where
  "synthesize ratio_gt set_order query raw max_results =
     (let all_results = concat (map snd raw) in
      case deduplicate ratio_gt all_results of
        Inl e \<Rightarrow> Inl e
      | Inr unique_results \<Rightarrow>
          let scored_results = score_results query unique_results raw;
              ranked_results = sorted_reverse scored_results;
              top_results = slice_to max_results ranked_results
          in Inr \<lparr> results = top_results,
                   summary = generate_summary set_order top_results raw,
                   engine_stats = map (\<lambda>(engine, rs). (engine, length rs)) raw,
                   total_raw = length all_results,
                   total_unique = length unique_results \<rparr>)"

section \<open>QueryProcessor\<close>

definition is_word_char :: "char \<Rightarrow> bool" where
  "is_word_char c =
     (c \<in> set ''abcdefghijklmnopqrstuvwxyzABCDEFGHIJKLMNOPQRSTUVWXYZ0123456789_'')"

text \<open>The regular expression \<open>\b\<close> between two neighbouring characters (\<open>None\<close> beyond
  either end of the string): exactly one of them is a word character.\<close>

definition word_boundary :: "char option \<Rightarrow> char option \<Rightarrow> bool" where
  "word_boundary a b =
     ((case a of None \<Rightarrow> False | Some c \<Rightarrow> is_word_char c)
        \<noteq> (case b of None \<Rightarrow> False | Some c \<Rightarrow> is_word_char c))"

definition head_opt :: "string \<Rightarrow> char option" where
  "head_opt s = (case s of [] \<Rightarrow> None | c # _ \<Rightarrow> Some c)"

text \<open>\<open>\b(?:w1|w2|...)\b\<close> with \<open>re.IGNORECASE\<close>, tried at one position: \<open>prev\<close> is the
  character before the position, \<open>t\<close> the text from the position on. The alternatives
  are lower-case and not empty.\<close>

definition word_match_here :: "string list \<Rightarrow> char option \<Rightarrow> string \<Rightarrow> bool" where
  "word_match_here alts prev t =
     list_ex (\<lambda>w. length w \<le> length t \<and> lower (take (length w) t) = w
                \<and> word_boundary prev (head_opt t)
                \<and> word_boundary (Some (last (take (length w) t)))
                     (head_opt (drop (length w) t))) alts"

text \<open>\<open>re.search\<close>, as a truth value: some position matches.\<close>

fun word_search :: "string list \<Rightarrow> char option \<Rightarrow> string \<Rightarrow> bool" where
  "word_search alts prev [] = word_match_here alts prev []"
| "word_search alts prev (c # cs) =
     (word_match_here alts prev (c # cs) \<or> word_search alts (Some c) cs)"

text \<open>\<open>self.entity_patterns\<close>, in the order of the dictionary.\<close>

definition entity_patterns :: "(string \<times> string list) list" where
  "entity_patterns =
     [(''person'', [''who'', ''person'', ''people'', ''scientist'', ''artist'', ''leader'']),
      (''location'', [''where'', ''place'', ''city'', ''country'', ''location'']),
      (''time'', [''when'', ''date'', ''year'', ''time'', ''period'', ''age'', ''era'']),
      (''definition'', [''what is'', ''define'', ''meaning'', ''definition'']),
      (''how'', [''how'', ''process'', ''method'', ''way'']),
      (''why'', [''why'', ''reason'', ''cause'', ''purpose''])]"

text \<open>\<open>_detect_intent\<close>: the first pattern that is found names the intent.\<close>

fun detect_intent_in :: "(string \<times> string list) list \<Rightarrow> string \<Rightarrow> string" where
  "detect_intent_in [] query = ''general''"
| "detect_intent_in ((intent, alts) # ps) query =
     (if word_search alts None query then intent else detect_intent_in ps query)"

definition detect_intent :: "string \<Rightarrow> string" where
  "detect_intent query = detect_intent_in entity_patterns query"

definition stop_words :: "string list" where
  "stop_words =
     [''a'', ''an'', ''the'', ''is'', ''are'', ''was'', ''were'', ''be'', ''been'',
      ''being'', ''have'', ''has'', ''had'', ''do'', ''does'', ''did'',
      ''what'', ''which'', ''who'', ''when'', ''where'', ''why'', ''how'',
      ''and'', ''or'', ''but'', ''in'', ''on'', ''at'', ''to'', ''for'', ''of'',
      ''with'', ''from'', ''about'', ''can'', ''could'', ''should'', ''would'']"

text \<open>\<open>re.findall(r'\b\w+\b', s)\<close>: the maximal runs of word characters.\<close>

fun findall_words_aux :: "string \<Rightarrow> string \<Rightarrow> string list" where
  "findall_words_aux cur [] = (if cur = [] then [] else [cur])"
| "findall_words_aux cur (c # cs) =
     (if is_word_char c then findall_words_aux (cur @ [c]) cs
      else (if cur = [] then findall_words_aux [] cs else cur # findall_words_aux [] cs))"

definition findall_words :: "string \<Rightarrow> string list" where
  "findall_words s = findall_words_aux [] s"

text \<open>\<open>_extract_keywords\<close>.\<close>

definition extract_keywords :: "string \<Rightarrow> string list" where
  "extract_keywords query =
     (let ws = findall_words (lower query)
      in filter (\<lambda>w. w \<notin> set stop_words \<and> length w > 2) ws)"

text \<open>The tail \<open>(.+?)(?:\?|$)\<close> of the three patterns of \<open>_extract_main_term\<close>: the
  shortest non-empty run without a line feed that is followed by a question mark or
  stands at the end of the string (\<open>$\<close> also matches before a final line feed).
  \<open>acc\<close> is what the group has taken so far.\<close>

fun lazy_group :: "string \<Rightarrow> string \<Rightarrow> string option" where
  "lazy_group acc [] = (if acc \<noteq> [] then Some acc else None)"
| "lazy_group acc (c # cs) =
     (if acc \<noteq> [] \<and> (c = CHR ''?'' \<or> (c = CHR 0x0A \<and> cs = [])) then Some acc
      else if c = CHR 0x0A then None
      else lazy_group (acc @ [c]) cs)"

text \<open>A literal, case-insensitive prefix of the text, removed when it is there.\<close>

definition skip_literal :: "string \<Rightarrow> string \<Rightarrow> string option" where
  "skip_literal lit t =
     (if length lit \<le> length t \<and> lower (take (length lit) t) = lit
      then Some (drop (length lit) t) else None)"

text \<open>The optional group \<open>(?:a |an |the )?\<close> followed by the tail: each alternative in
  turn, and at last the empty one.\<close>

fun after_articles :: "string list \<Rightarrow> string \<Rightarrow> string option" where
  "after_articles [] t = lazy_group [] t"
| "after_articles (a # as) t =
     (case skip_literal a t of
        None \<Rightarrow> after_articles as t
      | Some t' \<Rightarrow> (case lazy_group [] t' of
                      Some g \<Rightarrow> Some g
                    | None \<Rightarrow> after_articles as t))"

text \<open>One pattern, a literal and its articles, tried at one position; and \<open>re.search\<close>,
  which takes the leftmost position where it matches and gives group 1.\<close>

definition term_match_here :: "string \<times> string list \<Rightarrow> string \<Rightarrow> string option" where
  "term_match_here pat t =
     (case skip_literal (fst pat) t of
        None \<Rightarrow> None
      | Some t' \<Rightarrow> after_articles (snd pat) t')"

fun term_search :: "string \<times> string list \<Rightarrow> string \<Rightarrow> string option" where
  "term_search pat [] = term_match_here pat []"
| "term_search pat (c # cs) =
     (case term_match_here pat (c # cs) of
        Some g \<Rightarrow> Some g
      | None \<Rightarrow> term_search pat cs)"

text \<open>\<open>s.strip()\<close>.\<close>

definition strip :: "string \<Rightarrow> string" where
  "strip s = rev (dropWhile is_space (rev (dropWhile is_space s)))"

definition main_term_patterns :: "(string \<times> string list) list" where
  "main_term_patterns =
     [(''what is '', [''a '', ''an '', ''the '']), (''define '', []), (''explain '', [])]"

text \<open>\<open>_extract_main_term\<close>.\<close>

fun extract_main_term_in :: "(string \<times> string list) list \<Rightarrow> string \<Rightarrow> string" where
  "extract_main_term_in [] query = []"
| "extract_main_term_in (pat # pats) query =
     (case term_search pat query of
        Some g \<Rightarrow> strip g
      | None \<Rightarrow> extract_main_term_in pats query)"

definition extract_main_term :: "string \<Rightarrow> string" where
  "extract_main_term query = extract_main_term_in main_term_patterns query"

text \<open>The last loop of \<open>breakdown_query\<close>, on the state \<open>(unique_queries, seen)\<close>.\<close>

fun unique_loop :: "string list \<times> string set \<Rightarrow> string list \<Rightarrow> string list \<times> string set" where
  "unique_loop st [] = st"
| "unique_loop (unique_queries, seen) (q # qs) =
     (let q_normalized = strip (lower q) in
      if q_normalized \<notin> seen \<and> length unique_queries < 5
      then unique_loop (unique_queries @ [q], insert q_normalized seen) qs
      else unique_loop (unique_queries, seen) qs)"

text \<open>The sub-queries that \<open>breakdown_query\<close> collects before it removes duplicates.\<close>

definition candidate_queries :: "string \<Rightarrow> string list" where
  "candidate_queries query =
     (let query_lower = lower query;
          intent = detect_intent query_lower;
          keywords = extract_keywords query
      in [query] @
        (if intent = ''definition'' then
           (let main_term = extract_main_term query in
            if main_term \<noteq> []
            then [main_term @ '' definition'', main_term @ '' explanation'',
                  main_term @ '' examples'']
            else [])
         else if intent = ''how'' then
           [query @ '' tutorial'', query @ '' guide'', query @ '' step by step'']
         else if intent = ''factual'' then
           (case keywords of
              [] \<Rightarrow> []
            | k # _ \<Rightarrow> [join '' '' (take 3 keywords), k @ '' facts''])
         else
           (if length keywords > 2
            then [join '' '' (take 2 keywords),
                  join '' '' (drop (length keywords - 2) keywords)]
                 @ map (\<lambda>kw. kw @ '' overview'') (take 3 keywords)
            else [])))"

text \<open>\<open>QueryProcessor.breakdown_query\<close>.\<close>

definition breakdown_query :: "string \<Rightarrow> string list" where
  "breakdown_query query =
     take 5 (fst (unique_loop ([], {}) (candidate_queries query)))"

section \<open>SearchOrchestrator\<close>

text \<open>What awaiting \<open>engine.search(query, max_results)\<close> under \<open>asyncio.wait_for\<close> comes
  to: a list of results, a timeout, or a raised exception, which is either an instance
  of \<open>Exception\<close> or of \<open>BaseException\<close> only (\<open>asyncio.CancelledError\<close>). An engine is the
  function from the query, the result cap and the timeout to that outcome; tasks share
  no state.\<close>

datatype raised = OrdinaryException | BaseExceptionOnly

datatype outcome = Returned "search_result list" | TimedOut | Raised raised

type_synonym engine = "string \<Rightarrow> nat \<Rightarrow> nat \<Rightarrow> outcome"

text \<open>What a task settles to, and what \<open>asyncio.gather(..., return_exceptions=True)\<close> puts
  in its list: the value returned, or the exception object.\<close>

datatype task_result = Results "search_result list" | ExceptionObject raised

text \<open>\<open>_search_with_timeout\<close>: the handlers for \<open>asyncio.TimeoutError\<close> and for \<open>Exception\<close>
  return the empty list; an exception that is no \<open>Exception\<close> passes through both.\<close>

definition search_with_timeout :: "nat \<Rightarrow> engine \<Rightarrow> string \<Rightarrow> nat \<Rightarrow> task_result" where
  "search_with_timeout max_results_per_engine engine query timeout =
     (case engine query max_results_per_engine timeout of
        Returned rs \<Rightarrow> Results rs
      | TimedOut \<Rightarrow> Results []
      | Raised OrdinaryException \<Rightarrow> Results []
      | Raised BaseExceptionOnly \<Rightarrow> ExceptionObject BaseExceptionOnly)"

text \<open>The loop that creates the tasks: the engine at position \<open>len(tasks)\<close> gets the
  sub-query \<open>len(tasks) % len(sub_queries)\<close>; the modulus raises when there is no
  sub-query. A task is represented by what it settles to.\<close>

fun create_tasks ::
  "nat \<Rightarrow> nat \<Rightarrow> string list \<Rightarrow> task_result list \<Rightarrow> (string \<times> engine) list
     \<Rightarrow> error + task_result list" where
  "create_tasks mr timeout sub_queries tasks [] = Inr tasks"
| "create_tasks mr timeout sub_queries tasks ((engine_name, engine) # es) =
     (if length sub_queries = 0 then Inl ZeroDivisionError
      else
        let query_idx = length tasks mod length sub_queries;
            search_query = sub_queries ! query_idx
        in create_tasks mr timeout sub_queries
             (tasks @ [search_with_timeout mr engine search_query timeout]) es)"

text \<open>Assignment to a dictionary that keeps its insertion order.\<close>

fun dict_set :: "'k \<Rightarrow> 'v \<Rightarrow> ('k \<times> 'v) list \<Rightarrow> ('k \<times> 'v) list" where
  "dict_set k v [] = [(k, v)]"
| "dict_set k v ((k', v') # kvs) =
     (if k' = k then (k, v) # kvs else (k', v') # dict_set k v kvs)"

text \<open>\<open>isinstance(result, Exception)\<close>.\<close>

definition is_exception :: "task_result \<Rightarrow> bool" where
  "is_exception result =
     (case result of
        Results rs \<Rightarrow> False
      | ExceptionObject OrdinaryException \<Rightarrow> True
      | ExceptionObject BaseExceptionOnly \<Rightarrow> False)"

text \<open>\<open>search_all\<close>: the engines are a dictionary, so their names are pairwise different;
  \<open>asyncio.gather\<close> gives what the tasks settled to, in the order of creation. An
  \<open>Exception\<close> object becomes the empty list; anything else is stored as it is.\<close>

definition search_all ::
  "(string \<times> engine) list \<Rightarrow> nat \<Rightarrow> string list \<Rightarrow> nat
     \<Rightarrow> error + (string \<times> task_result) list" where
  "search_all engines mr sub_queries timeout =
     (case create_tasks mr timeout sub_queries [] engines of
        Inl e \<Rightarrow> Inl e
      | Inr task_results \<Rightarrow>
          Inr (foldl (\<lambda>engine_results (engine_name, result).
                   if is_exception result
                   then dict_set engine_name (Results []) engine_results
                   else dict_set engine_name result engine_results)
                 [] (zip (map fst engines) task_results)))"

text \<open>The loop of \<open>search_all_streaming\<close> that yields: \<open>await task\<close> gives the list, an
  \<open>Exception\<close> is caught and the empty list yielded, any other exception leaves the
  generator (the pairs yielded before it are then not part of the value here).\<close>

fun yield_loop ::
  "(string \<times> engine) list \<Rightarrow> task_result list \<Rightarrow> nat list
     \<Rightarrow> error + (string \<times> search_result list) list" where
  "yield_loop engines task_results [] = Inr []"
| "yield_loop engines task_results (i # rest) =
     (case task_results ! i of
        Results rs \<Rightarrow>
          (case yield_loop engines task_results rest of
             Inl e \<Rightarrow> Inl e
           | Inr pairs \<Rightarrow> Inr ((fst (engines ! i), rs) # pairs))
      | ExceptionObject OrdinaryException \<Rightarrow>
          (case yield_loop engines task_results rest of
             Inl e \<Rightarrow> Inl e
           | Inr pairs \<Rightarrow> Inr ((fst (engines ! i), []) # pairs))
      | ExceptionObject BaseExceptionOnly \<Rightarrow> Inl UncaughtBaseException)"

text \<open>\<open>search_all_streaming\<close>: the same tasks with the timeout 8. The loop pops and yields
  each task once, when it has settled, with the name of its engine; \<open>completion\<close> is that
  order, a permutation of the positions of the tasks.\<close>

definition search_all_streaming ::
  "(string \<times> engine) list \<Rightarrow> nat \<Rightarrow> string list \<Rightarrow> nat list
     \<Rightarrow> error + (string \<times> search_result list) list" where
  "search_all_streaming engines mr sub_queries completion =
     (case create_tasks mr 8 sub_queries [] engines of
        Inl e \<Rightarrow> Inl e
      | Inr task_results \<Rightarrow> yield_loop engines task_results completion)"

text \<open>An engine that is a pure function of the query and the cap: it returns its list
  whatever the timeout.\<close>

definition pure_engine :: "(string \<Rightarrow> nat \<Rightarrow> search_result list) \<Rightarrow> engine" where
  "pure_engine f = (\<lambda>query max_results timeout. Returned (f query max_results))"

text \<open>The total number of results of a sequence of pairs, and a map whose entries are
  all lists of results.\<close>

definition total_results :: "(string \<times> search_result list) list \<Rightarrow> nat" where
  "total_results pairs = sum_list (map (\<lambda>p. length (snd p)) pairs)"

definition as_entries :: "raw_results \<Rightarrow> (string \<times> task_result) list" where
  "as_entries raw = map (\<lambda>p. (fst p, Results (snd p))) raw"




text \<open>What the task of the engine at position \<open>i\<close> settles to.\<close>

definition settle :: "nat \<Rightarrow> nat \<Rightarrow> string list \<Rightarrow> nat \<Rightarrow> (string \<times> engine) \<Rightarrow> task_result" where
  "settle mr timeout sub_queries i e =
     search_with_timeout mr (snd e) (sub_queries ! (i mod length sub_queries)) timeout"

definition wiki_fn :: "string \<Rightarrow> nat \<Rightarrow> search_result list" where
  "wiki_fn q m = [page_wiki]"

definition ddg_fn :: "string \<Rightarrow> nat \<Rightarrow> search_result list" where
  "ddg_fn q m = [page_ddg, other_ddg]"

section \<open>Properties of the canonical URL\<close>

lemmas normalize_url_defs =
  normalize_url_def Let_def lower_def lower_char_def split_first_def rstrip_slash_def
  sub_www_def sub_scheme_def

lemma lower_char_idem: "lower_char (lower_char c) = lower_char c"
  by (auto simp add: lower_char_def)

lemma lower_idem: "lower (lower s) = lower s"
  by (simp add: lower_def lower_char_idem)

lemma lower_char_eq_question: "lower_char c = CHR ''?'' \<longleftrightarrow> c = CHR ''?''"
  by (auto simp add: lower_char_def)

lemma lower_char_eq_hash: "lower_char c = CHR ''#'' \<longleftrightarrow> c = CHR ''#''"
  by (auto simp add: lower_char_def)

lemma lower_char_eq_slash: "lower_char c = CHR ''/'' \<longleftrightarrow> c = CHR ''/''"
  by (auto simp add: lower_char_def)

lemma set_split_first: "set (split_first sep s) \<subseteq> set s"
  by (auto simp add: split_first_def dest: set_takeWhileD)

lemma sep_notin_split_first: "sep \<notin> set (split_first sep s)"
  by (auto simp add: split_first_def dest: set_takeWhileD)

lemma split_first_id: "sep \<notin> set s \<Longrightarrow> split_first sep s = s"
  by (auto simp add: split_first_def)

lemma lower_fixed_iff: "lower s = s \<longleftrightarrow> (\<forall>c\<in>set s. lower_char c = c)"
  by (induction s) (auto simp add: lower_def)

lemma in_set_lowerD: "c \<in> set (lower s) \<Longrightarrow> \<exists>d\<in>set s. lower_char d = c"
  by (auto simp add: lower_def)

lemma set_sub_scheme: "set (sub_scheme s) \<subseteq> set s"
  by (auto simp add: sub_scheme_def dest: in_set_dropD)

lemma set_sub_www: "set (sub_www s) \<subseteq> set s"
  by (auto simp add: sub_www_def dest: in_set_dropD)

lemma set_rstrip_slash: "set (rstrip_slash s) \<subseteq> set s"
  by (auto simp add: rstrip_slash_def dest: set_dropWhileD)

lemma rstrip_slash_no_suffix: "\<not> suffix ''/'' (rstrip_slash s)"
proof
  assume "suffix ''/'' (rstrip_slash s)"
  then obtain t where t: "rstrip_slash s = t @ ''/''"
    by (auto simp add: suffix_def)
  then have "rev (rstrip_slash s) = CHR ''/'' # rev t"
    by simp
  then have "dropWhile (\<lambda>c. c = CHR ''/'') (rev s) = CHR ''/'' # rev t"
    by (simp add: rstrip_slash_def)
  then have "hd (dropWhile (\<lambda>c. c = CHR ''/'') (rev s)) = CHR ''/''"
    and "dropWhile (\<lambda>c. c = CHR ''/'') (rev s) \<noteq> []"
    by simp_all
  then show False
    using hd_dropWhile [of "\<lambda>c. c = CHR ''/''" "rev s"] by simp
qed

lemma rstrip_slash_id: "\<not> suffix ''/'' s \<Longrightarrow> rstrip_slash s = s"
proof (cases s rule: rev_cases)
  case Nil
  then show ?thesis by (simp add: rstrip_slash_def)
next
  case (snoc t c)
  assume "\<not> suffix ''/'' s"
  with snoc have "c \<noteq> CHR ''/''" by (auto simp add: suffix_def)
  with snoc show ?thesis by (simp add: rstrip_slash_def)
qed

lemma length_sub_scheme: "length (sub_scheme s) \<le> length s"
  by (simp add: sub_scheme_def)

lemma length_sub_www: "length (sub_www s) \<le> length s"
  by (simp add: sub_www_def)

lemma length_rstrip_slash: "length (rstrip_slash s) \<le> length s"
  using length_dropWhile_le [of "\<lambda>c. c = CHR ''/''" "rev s"]
  by (simp add: rstrip_slash_def)

lemma lower_normalize_url: "lower (normalize_url u) = normalize_url u"
  by (simp add: normalize_url_def Let_def lower_idem)

lemma notin_set_lower:
  assumes "\<And>d. lower_char d = c \<Longrightarrow> d = c" and "c \<notin> set s"
  shows "c \<notin> set (lower s)"
proof
  assume "c \<in> set (lower s)"
  then obtain d where d: "d \<in> set s" "lower_char d = c"
    by (auto simp add: lower_def)
  from assms(1) [OF d(2)] have "d = c" .
  with d(1) assms(2) show False by simp
qed

lemma question_notin_normalize_url: "CHR ''?'' \<notin> set (normalize_url u)"
proof -
  let ?m = "rstrip_slash (sub_www (sub_scheme u))"
  have "CHR ''?'' \<notin> set (split_first (CHR ''?'') ?m)"
    by (rule sep_notin_split_first)
  moreover have "set (split_first (CHR ''#'') (split_first (CHR ''?'') ?m))
      \<subseteq> set (split_first (CHR ''?'') ?m)"
    by (rule set_split_first)
  ultimately have "CHR ''?'' \<notin> set (split_first (CHR ''#'') (split_first (CHR ''?'') ?m))"
    by (rule contra_subsetD [rotated])
  then have "CHR ''?'' \<notin> set (lower (split_first (CHR ''#'') (split_first (CHR ''?'') ?m)))"
    by (rule notin_set_lower [rotated]) (simp add: lower_char_eq_question)
  then show ?thesis
    by (simp add: normalize_url_def Let_def)
qed

lemma hash_notin_normalize_url: "CHR ''#'' \<notin> set (normalize_url u)"
proof -
  let ?m = "rstrip_slash (sub_www (sub_scheme u))"
  have "CHR ''#'' \<notin> set (split_first (CHR ''#'') (split_first (CHR ''?'') ?m))"
    by (rule sep_notin_split_first)
  then have "CHR ''#'' \<notin> set (lower (split_first (CHR ''#'') (split_first (CHR ''?'') ?m)))"
    by (rule notin_set_lower [rotated]) (simp add: lower_char_eq_hash)
  then show ?thesis
    by (simp add: normalize_url_def Let_def)
qed

text \<open>On a string that is already lower-case and free of \<open>?\<close> and \<open>#\<close>, only the three
  strip steps of the normalization can still change anything.\<close>

lemma normalize_url_on_normal:
  assumes "lower n = n" and "CHR ''?'' \<notin> set n" and "CHR ''#'' \<notin> set n"
  shows "normalize_url n = rstrip_slash (sub_www (sub_scheme n))"
proof -
  let ?m = "rstrip_slash (sub_www (sub_scheme n))"
  have sub: "set ?m \<subseteq> set n"
    using set_rstrip_slash set_sub_www set_sub_scheme by blast
  have q: "split_first (CHR ''?'') ?m = ?m"
    using sub assms(2) by (intro split_first_id) blast
  have h: "split_first (CHR ''#'') ?m = ?m"
    using sub assms(3) by (intro split_first_id) blast
  have "\<forall>c\<in>set n. lower_char c = c"
    using assms(1) by (simp add: lower_fixed_iff)
  then have "lower ?m = ?m"
    using sub by (auto simp add: lower_fixed_iff)
  with q h show ?thesis
    by (simp add: normalize_url_def Let_def)
qed

lemma strip_steps_fixed_iff:
  "rstrip_slash (sub_www (sub_scheme n)) = n \<longleftrightarrow>
     \<not> prefix ''http://'' n \<and> \<not> prefix ''https://'' n \<and> \<not> prefix ''www.'' n
       \<and> \<not> suffix ''/'' n"
proof
  assume fixed: "rstrip_slash (sub_www (sub_scheme n)) = n"
  have l1: "length (rstrip_slash (sub_www (sub_scheme n))) \<le> length (sub_www (sub_scheme n))"
    by (rule length_rstrip_slash)
  have l2: "length (sub_www (sub_scheme n)) \<le> length (sub_scheme n)"
    by (rule length_sub_www)
  have l3: "length (sub_scheme n) \<le> length n"
    by (rule length_sub_scheme)
  from fixed l1 l2 l3 have e3: "length (sub_scheme n) = length n"
    and e2: "length (sub_www (sub_scheme n)) = length (sub_scheme n)"
    by simp_all
  have s: "\<not> prefix ''http://'' n \<and> \<not> prefix ''https://'' n"
  proof (rule ccontr)
    assume "\<not> ?thesis"
    then have "length (sub_scheme n) < length n"
      by (auto simp add: sub_scheme_def prefix_def)
    with e3 show False by simp
  qed
  then have n1: "sub_scheme n = n" by (simp add: sub_scheme_def)
  have w: "\<not> prefix ''www.'' n"
  proof
    assume "prefix ''www.'' n"
    then have "length (sub_www n) < length n"
      by (auto simp add: sub_www_def prefix_def)
    with e2 n1 show False by simp
  qed
  then have n2: "sub_www n = n" by (simp add: sub_www_def)
  from fixed n1 n2 have "rstrip_slash n = n" by simp
  then have "\<not> suffix ''/'' n"
    using rstrip_slash_no_suffix [of n] by simp
  with s w show "\<not> prefix ''http://'' n \<and> \<not> prefix ''https://'' n \<and> \<not> prefix ''www.'' n
       \<and> \<not> suffix ''/'' n" by simp
next
  assume "\<not> prefix ''http://'' n \<and> \<not> prefix ''https://'' n \<and> \<not> prefix ''www.'' n
       \<and> \<not> suffix ''/'' n"
  then show "rstrip_slash (sub_www (sub_scheme n)) = n"
    by (simp add: sub_scheme_def sub_www_def rstrip_slash_id)
qed

lemma normalize_url_no_query_no_slash:
  assumes "CHR ''?'' \<notin> set u" and "CHR ''#'' \<notin> set u"
  shows "\<not> suffix ''/'' (normalize_url u)"
proof -
  let ?m = "rstrip_slash (sub_www (sub_scheme u))"
  have sub: "set ?m \<subseteq> set u"
    using set_rstrip_slash set_sub_www set_sub_scheme by blast
  have "CHR ''?'' \<notin> set ?m" and "CHR ''#'' \<notin> set ?m"
    using sub assms by blast+
  then have "split_first (CHR ''#'') (split_first (CHR ''?'') ?m) = ?m"
    by (simp add: split_first_id)
  then have n: "normalize_url u = lower ?m"
    by (simp add: normalize_url_def Let_def)
  show ?thesis
  proof
    assume "suffix ''/'' (normalize_url u)"
    then obtain t where t: "lower ?m = t @ ''/''"
      using n by (auto simp add: suffix_def)
    then have "?m \<noteq> []" by (auto simp add: lower_def)
    then obtain m' c where m: "?m = m' @ [c]"
      by (cases ?m rule: rev_cases) auto
    with t have "lower_char c = CHR ''/''" by (simp add: lower_def)
    then have "c = CHR ''/''" by (simp add: lower_char_eq_slash)
    with m have "suffix ''/'' ?m" by (simp add: suffix_def)
    then show False using rstrip_slash_no_suffix by blast
  qed
qed

lemma prefix_append_sep:
  assumes "c \<notin> set p"
  shows "prefix p (r @ c # q) \<longleftrightarrow> prefix p r"
proof
  assume "prefix p (r @ c # q)"
  then consider "prefix p r" | us where "p = r @ us" "prefix us (c # q)"
    by (auto simp add: prefix_append)
  then show "prefix p r"
  proof cases
    case 1
    then show ?thesis .
  next
    case 2
    show ?thesis
    proof (cases us)
      case Nil
      with 2 show ?thesis by simp
    next
      case (Cons a as)
      with 2 have "a = c" by simp
      with Cons 2 assms show ?thesis by simp
    qed
  qed
next
  assume "prefix p r"
  then show "prefix p (r @ c # q)" by (rule prefix_prefix)
qed

lemma sub_scheme_append_sep:
  assumes "c \<notin> set ''https://''"
  shows "sub_scheme (r @ c # q) = sub_scheme r @ c # q"
proof -
  have a: "prefix ''http://'' (r @ c # q) \<longleftrightarrow> prefix ''http://'' r"
    using assms by (intro prefix_append_sep) simp
  have b: "prefix ''https://'' (r @ c # q) \<longleftrightarrow> prefix ''https://'' r"
    using assms by (intro prefix_append_sep) simp
  have l7: "prefix ''http://'' r \<Longrightarrow> 7 \<le> length r"
    by (auto simp add: prefix_def)
  have l8: "prefix ''https://'' r \<Longrightarrow> 8 \<le> length r"
    by (auto simp add: prefix_def)
  show ?thesis
    unfolding sub_scheme_def a b using l7 l8 by simp
qed

lemma sub_www_append_sep:
  assumes "c \<notin> set ''www.''"
  shows "sub_www (r @ c # q) = sub_www r @ c # q"
proof -
  have a: "prefix ''www.'' (r @ c # q) \<longleftrightarrow> prefix ''www.'' r"
    using assms by (intro prefix_append_sep) simp
  have l4: "prefix ''www.'' r \<Longrightarrow> 4 \<le> length r"
    by (auto simp add: prefix_def)
  show ?thesis
    unfolding sub_www_def a using l4 by simp
qed

lemma rstrip_slash_append_sep:
  assumes "c \<noteq> CHR ''/''"
  shows "\<exists>q'. rstrip_slash (a @ c # q) = a @ c # q'"
proof (cases "\<forall>x\<in>set (rev q). x = CHR ''/''")
  case True
  then have "dropWhile (\<lambda>c. c = CHR ''/'') (rev q @ c # rev a) = c # rev a"
    using assms by (simp add: dropWhile_append)
  then have "rstrip_slash (a @ c # q) = a @ c # []"
    by (simp add: rstrip_slash_def)
  then show ?thesis ..
next
  case False
  then have "dropWhile (\<lambda>c. c = CHR ''/'') (rev q @ c # rev a)
      = dropWhile (\<lambda>c. c = CHR ''/'') (rev q) @ c # rev a"
    by (auto simp add: dropWhile_append)
  then have "rstrip_slash (a @ c # q) = a @ c # rev (dropWhile (\<lambda>c. c = CHR ''/'') (rev q))"
    by (simp add: rstrip_slash_def)
  then show ?thesis ..
qed

lemma rstrip_slash_snoc: "rstrip_slash (a @ ''/'') = rstrip_slash a"
  by (simp add: rstrip_slash_def)

lemma split_first_append_sep: "split_first c (a @ c # q) = split_first c a"
proof (cases "c \<in> set a")
  case True
  then show ?thesis by (auto simp add: split_first_def takeWhile_append)
next
  case False
  then have "split_first c a = a" by (rule split_first_id)
  moreover from False have "split_first c (a @ c # q) = a"
    by (auto simp add: split_first_def takeWhile_append)
  ultimately show ?thesis by simp
qed

lemma split_hash_question_append:
  "split_first (CHR ''#'') (split_first (CHR ''?'') (a @ CHR ''#'' # q))
     = split_first (CHR ''#'') (split_first (CHR ''?'') a)"
proof (cases "CHR ''?'' \<in> set a")
  case True
  then have "split_first (CHR ''?'') (a @ CHR ''#'' # q) = split_first (CHR ''?'') a"
    by (auto simp add: split_first_def takeWhile_append)
  then show ?thesis by simp
next
  case False
  then have "split_first (CHR ''?'') (a @ CHR ''#'' # q)
      = a @ CHR ''#'' # takeWhile (\<lambda>c. c \<noteq> CHR ''?'') q"
    by (auto simp add: split_first_def takeWhile_append)
  moreover from False have "split_first (CHR ''?'') a = a"
    by (rule split_first_id)
  ultimately show ?thesis by (simp add: split_first_append_sep)
qed

lemma strip_steps_no_slash:
  assumes "\<not> suffix ''/'' r"
  shows "rstrip_slash (sub_www (sub_scheme r)) = sub_www (sub_scheme r)"
proof -
  have s1: "suffix (sub_scheme r) r"
    by (simp add: sub_scheme_def suffix_drop)
  have s2: "suffix (sub_www (sub_scheme r)) (sub_scheme r)"
    by (simp add: sub_www_def suffix_drop)
  from s2 s1 have "suffix (sub_www (sub_scheme r)) r" by (rule suffix_order.trans)
  with assms have "\<not> suffix ''/'' (sub_www (sub_scheme r))"
    using suffix_order.trans by blast
  then show ?thesis by (rule rstrip_slash_id)
qed

lemma normalize_url_drops_query:
  assumes "\<not> suffix ''/'' r"
  shows "normalize_url (r @ ''?'' @ q) = normalize_url r"
proof -
  let ?a = "sub_www (sub_scheme r)"
  have "sub_www (sub_scheme (r @ CHR ''?'' # q)) = ?a @ CHR ''?'' # q"
    by (simp add: sub_scheme_append_sep sub_www_append_sep)
  moreover obtain q' where "rstrip_slash (?a @ CHR ''?'' # q) = ?a @ CHR ''?'' # q'"
    using rstrip_slash_append_sep [of "CHR ''?''" ?a q] by auto
  ultimately have "split_first (CHR ''?'') (rstrip_slash (sub_www (sub_scheme (r @ CHR ''?'' # q))))
      = split_first (CHR ''?'') ?a"
    by (simp add: split_first_append_sep)
  then show ?thesis
    by (simp add: normalize_url_def Let_def strip_steps_no_slash [OF assms])
qed

lemma normalize_url_drops_fragment:
  assumes "\<not> suffix ''/'' r"
  shows "normalize_url (r @ ''#'' @ f) = normalize_url r"
proof -
  let ?a = "sub_www (sub_scheme r)"
  have "sub_www (sub_scheme (r @ CHR ''#'' # f)) = ?a @ CHR ''#'' # f"
    by (simp add: sub_scheme_append_sep sub_www_append_sep)
  moreover obtain f' where "rstrip_slash (?a @ CHR ''#'' # f) = ?a @ CHR ''#'' # f'"
    using rstrip_slash_append_sep [of "CHR ''#''" ?a f] by auto
  ultimately have "split_first (CHR ''#'') (split_first (CHR ''?'')
        (rstrip_slash (sub_www (sub_scheme (r @ CHR ''#'' # f)))))
      = split_first (CHR ''#'') (split_first (CHR ''?'') ?a)"
    by (simp add: split_hash_question_append)
  then show ?thesis
    by (simp add: normalize_url_def Let_def strip_steps_no_slash [OF assms])
qed

lemma normalize_url_drops_scheme:
  assumes "\<not> prefix ''http://'' r" and "\<not> prefix ''https://'' r"
  shows "normalize_url (''http://'' @ r) = normalize_url r"
    and "normalize_url (''https://'' @ r) = normalize_url r"
  using assms by (simp_all add: normalize_url_def Let_def sub_scheme_def)

lemma normalize_url_drops_www:
  assumes "\<not> prefix ''http://'' r" and "\<not> prefix ''https://'' r" and "\<not> prefix ''www.'' r"
  shows "normalize_url (''www.'' @ r) = normalize_url r"
  using assms by (simp add: normalize_url_def Let_def sub_scheme_def sub_www_def)

lemma normalize_url_drops_slash:
  assumes "r \<noteq> ''http:/''" and "r \<noteq> ''https:/''"
  shows "normalize_url (r @ ''/'') = normalize_url r"
proof -
  have a: "prefix ''http://'' (r @ ''/'') \<longleftrightarrow> prefix ''http://'' r"
  proof
    assume "prefix ''http://'' (r @ ''/'')"
    then consider "prefix ''http://'' r" | us where "''http://'' = r @ us" "prefix us ''/''"
      by (auto simp add: prefix_append)
    then show "prefix ''http://'' r"
    proof cases
      case 1 then show ?thesis .
    next
      case 2
      then have "us = [] \<or> us = ''/''" by (cases us) auto
      with 2 assms(1) show ?thesis by auto
    qed
  next
    assume "prefix ''http://'' r" then show "prefix ''http://'' (r @ ''/'')" by (rule prefix_prefix)
  qed
  have b: "prefix ''https://'' (r @ ''/'') \<longleftrightarrow> prefix ''https://'' r"
  proof
    assume "prefix ''https://'' (r @ ''/'')"
    then consider "prefix ''https://'' r" | us where "''https://'' = r @ us" "prefix us ''/''"
      by (auto simp add: prefix_append)
    then show "prefix ''https://'' r"
    proof cases
      case 1 then show ?thesis .
    next
      case 2
      then have "us = [] \<or> us = ''/''" by (cases us) auto
      with 2 assms(2) show ?thesis by auto
    qed
  next
    assume "prefix ''https://'' r" then show "prefix ''https://'' (r @ ''/'')" by (rule prefix_prefix)
  qed
  have l7: "prefix ''http://'' r \<Longrightarrow> 7 \<le> length r"
    by (auto simp add: prefix_def)
  have l8: "prefix ''https://'' r \<Longrightarrow> 8 \<le> length r"
    by (auto simp add: prefix_def)
  have s: "sub_scheme (r @ ''/'') = sub_scheme r @ ''/''"
    unfolding sub_scheme_def a b using l7 l8 by simp
  have w: "sub_www (x @ ''/'') = sub_www x @ ''/''" for x
    using sub_www_append_sep [of "CHR ''/''" x "[]"] by simp
  show ?thesis
    by (simp add: normalize_url_def Let_def s w rstrip_slash_snoc)
qed

lemma normalize_url_clean:
  assumes "\<not> prefix ''http://'' r" and "\<not> prefix ''https://'' r" and "\<not> prefix ''www.'' r"
    and "\<not> suffix ''/'' r" and "CHR ''?'' \<notin> set r" and "CHR ''#'' \<notin> set r"
  shows "normalize_url r = lower r"
  using assms
  by (simp add: normalize_url_def Let_def sub_scheme_def sub_www_def rstrip_slash_id split_first_id)

text \<open>
  C1 (as stated, refuted). Normalizing twice differs from normalizing once: the trailing
  slash is removed before the query string, only one scheme and one \<open>www.\<close> are removed,
  and the scheme is matched before lower-casing.
\<close>

theorem normalize_url_not_idempotent:
  "normalize_url ''https://example.com/?q=1'' = ''example.com/''
   \<and> normalize_url (normalize_url ''https://example.com/?q=1'')
       \<noteq> normalize_url ''https://example.com/?q=1''
   \<and> normalize_url (normalize_url ''http://www.www.example.com'')
       \<noteq> normalize_url ''http://www.www.example.com''
   \<and> normalize_url (normalize_url ''HTTP://example.com'')
       \<noteq> normalize_url ''HTTP://example.com''"
  by (simp add: normalize_url_defs)

text \<open>
  C1 (amended). One leading \<open>http://\<close> or \<open>https://\<close> is removed, then one leading
  \<open>www.\<close>: in front of a rest that does not itself begin with one of them, they do
  not change the canonical URL. A query string or a fragment after a text that does not
  end with a slash is removed, and so is a trailing slash (except that \<open>http:/\<close> and
  \<open>https:/\<close> with a slash appended become a scheme). A text with none of these parts is
  only lower-cased. The canonical URL never contains \<open>?\<close> or \<open>#\<close> and is lower-case; for
  an input without \<open>?\<close> and \<open>#\<close> it does not end with a slash; and normalizing is
  idempotent at \<open>u\<close> exactly when the canonical URL of \<open>u\<close> does not itself begin with
  \<open>http://\<close>, \<open>https://\<close> or \<open>www.\<close> and does not end with a slash.
\<close>

theorem normalize_url_amended:
  "CHR ''?'' \<notin> set (normalize_url u) \<and> CHR ''#'' \<notin> set (normalize_url u)
   \<and> lower (normalize_url u) = normalize_url u
   \<and> normalize_url (''http://'' @ r) = normalize_url (''https://'' @ r)
   \<and> (CHR ''?'' \<notin> set u \<and> CHR ''#'' \<notin> set u \<longrightarrow> \<not> suffix ''/'' (normalize_url u))
   \<and> (normalize_url (normalize_url u) = normalize_url u \<longleftrightarrow>
        \<not> prefix ''http://'' (normalize_url u) \<and> \<not> prefix ''https://'' (normalize_url u)
        \<and> \<not> prefix ''www.'' (normalize_url u) \<and> \<not> suffix ''/'' (normalize_url u))
   \<and> (\<not> prefix ''http://'' r \<and> \<not> prefix ''https://'' r \<longrightarrow>
        normalize_url (''http://'' @ r) = normalize_url r
        \<and> normalize_url (''https://'' @ r) = normalize_url r)
   \<and> (\<not> prefix ''http://'' r \<and> \<not> prefix ''https://'' r \<and> \<not> prefix ''www.'' r \<longrightarrow>
        normalize_url (''www.'' @ r) = normalize_url r)
   \<and> (\<not> suffix ''/'' r \<longrightarrow>
        normalize_url (r @ ''?'' @ q) = normalize_url r
        \<and> normalize_url (r @ ''#'' @ q) = normalize_url r)
   \<and> (r \<noteq> ''http:/'' \<and> r \<noteq> ''https:/'' \<longrightarrow> normalize_url (r @ ''/'') = normalize_url r)
   \<and> (\<not> prefix ''http://'' r \<and> \<not> prefix ''https://'' r \<and> \<not> prefix ''www.'' r
        \<and> \<not> suffix ''/'' r \<and> CHR ''?'' \<notin> set r \<and> CHR ''#'' \<notin> set r \<longrightarrow>
        normalize_url r = lower r)"
proof -
  have scheme: "normalize_url (''http://'' @ r) = normalize_url (''https://'' @ r)"
    by (simp add: normalize_url_def sub_scheme_def)
  have "normalize_url (normalize_url u)
          = rstrip_slash (sub_www (sub_scheme (normalize_url u)))"
    by (rule normalize_url_on_normal)
      (rule lower_normalize_url question_notin_normalize_url hash_notin_normalize_url)+
  then have idem: "normalize_url (normalize_url u) = normalize_url u \<longleftrightarrow>
        \<not> prefix ''http://'' (normalize_url u) \<and> \<not> prefix ''https://'' (normalize_url u)
        \<and> \<not> prefix ''www.'' (normalize_url u) \<and> \<not> suffix ''/'' (normalize_url u)"
    by (simp only: strip_steps_fixed_iff)
  have first: "CHR ''?'' \<notin> set (normalize_url u) \<and> CHR ''#'' \<notin> set (normalize_url u)
   \<and> lower (normalize_url u) = normalize_url u
   \<and> normalize_url (''http://'' @ r) = normalize_url (''https://'' @ r)
   \<and> (CHR ''?'' \<notin> set u \<and> CHR ''#'' \<notin> set u \<longrightarrow> \<not> suffix ''/'' (normalize_url u))
   \<and> (normalize_url (normalize_url u) = normalize_url u \<longleftrightarrow>
        \<not> prefix ''http://'' (normalize_url u) \<and> \<not> prefix ''https://'' (normalize_url u)
        \<and> \<not> prefix ''www.'' (normalize_url u) \<and> \<not> suffix ''/'' (normalize_url u))"
    using scheme idem question_notin_normalize_url hash_notin_normalize_url
      lower_normalize_url normalize_url_no_query_no_slash
    by blast
  have s: "\<not> prefix ''http://'' r \<and> \<not> prefix ''https://'' r \<longrightarrow>
        normalize_url (''http://'' @ r) = normalize_url r
        \<and> normalize_url (''https://'' @ r) = normalize_url r"
    using normalize_url_drops_scheme [of r] by blast
  have w: "\<not> prefix ''http://'' r \<and> \<not> prefix ''https://'' r \<and> \<not> prefix ''www.'' r \<longrightarrow>
        normalize_url (''www.'' @ r) = normalize_url r"
    using normalize_url_drops_www [of r] by blast
  have qf: "\<not> suffix ''/'' r \<longrightarrow>
        normalize_url (r @ ''?'' @ q) = normalize_url r
        \<and> normalize_url (r @ ''#'' @ q) = normalize_url r"
    using normalize_url_drops_query [of r q] normalize_url_drops_fragment [of r q] by blast
  have t: "r \<noteq> ''http:/'' \<and> r \<noteq> ''https:/'' \<longrightarrow> normalize_url (r @ ''/'') = normalize_url r"
    using normalize_url_drops_slash [of r] by blast
  have c: "\<not> prefix ''http://'' r \<and> \<not> prefix ''https://'' r \<and> \<not> prefix ''www.'' r
        \<and> \<not> suffix ''/'' r \<and> CHR ''?'' \<notin> set r \<and> CHR ''#'' \<notin> set r \<longrightarrow>
        normalize_url r = lower r"
    using normalize_url_clean [of r] by blast
  from first s w qf t c show ?thesis by (intro conjI) (elim conjE, assumption)+
qed

theorem normalize_url_amended_witness:
  "CHR ''?'' \<notin> set ''https://www.Example.com/Wiki/'' \<and> CHR ''#'' \<notin> set ''https://www.Example.com/Wiki/''
   \<and> normalize_url ''https://www.Example.com/Wiki/'' = ''example.com/wiki''
   \<and> \<not> suffix ''/'' (normalize_url ''https://www.Example.com/Wiki/'')
   \<and> normalize_url (normalize_url ''https://www.Example.com/Wiki/'')
        = normalize_url ''https://www.Example.com/Wiki/''
   \<and> \<not> prefix ''http://'' ''Example.com/Wiki'' \<and> \<not> prefix ''https://'' ''Example.com/Wiki''
   \<and> \<not> prefix ''www.'' ''Example.com/Wiki'' \<and> \<not> suffix ''/'' ''Example.com/Wiki''
   \<and> CHR ''?'' \<notin> set ''Example.com/Wiki'' \<and> CHR ''#'' \<notin> set ''Example.com/Wiki''
   \<and> ''Example.com/Wiki'' \<noteq> ''http:/'' \<and> ''Example.com/Wiki'' \<noteq> ''https:/''
   \<and> normalize_url ''http://Example.com/Wiki'' = ''example.com/wiki''
   \<and> normalize_url ''https://Example.com/Wiki'' = ''example.com/wiki''
   \<and> normalize_url ''www.Example.com/Wiki'' = ''example.com/wiki''
   \<and> normalize_url ''Example.com/Wiki?q=1'' = ''example.com/wiki''
   \<and> normalize_url ''Example.com/Wiki#q=1'' = ''example.com/wiki''
   \<and> normalize_url ''Example.com/Wiki/'' = ''example.com/wiki''
   \<and> normalize_url ''Example.com/Wiki'' = ''example.com/wiki''"
proof -
  have n: "normalize_url ''https://www.Example.com/Wiki/'' = ''example.com/wiki''"
    by (simp add: normalize_url_defs)
  have p: "\<not> prefix ''http://'' ''example.com/wiki'' \<and> \<not> prefix ''https://'' ''example.com/wiki''
        \<and> \<not> prefix ''www.'' ''example.com/wiki'' \<and> \<not> suffix ''/'' ''example.com/wiki''"
    by (simp add: suffix_def)
  have h: "\<not> prefix ''http://'' ''Example.com/Wiki'' \<and> \<not> prefix ''https://'' ''Example.com/Wiki''
   \<and> \<not> prefix ''www.'' ''Example.com/Wiki'' \<and> \<not> suffix ''/'' ''Example.com/Wiki''
   \<and> CHR ''?'' \<notin> set ''Example.com/Wiki'' \<and> CHR ''#'' \<notin> set ''Example.com/Wiki''
   \<and> ''Example.com/Wiki'' \<noteq> ''http:/'' \<and> ''Example.com/Wiki'' \<noteq> ''https:/''"
    by (simp add: suffix_def)
  have l: "lower ''Example.com/Wiki'' = ''example.com/wiki''"
    by (simp add: lower_def lower_char_def)
  from normalize_url_amended
    [of "''https://www.Example.com/Wiki/''" "''Example.com/Wiki''" "''q=1''"] n p h l
  show ?thesis by simp
qed

section \<open>Properties of the deduplication loop\<close>

lemma dedup_inv_init: "dedup_inv (Map.empty, [])"
  by (simp add: dedup_inv_def)

lemma distinct_map_remove1:
  "distinct (map f xs) \<Longrightarrow> distinct (map f (remove1 e xs))"
  by (induction xs) (auto dest!: set_remove1_subset [THEN subsetD])

lemma table_update:
  assumes tab: "\<And>u x. seen u = Some x \<longleftrightarrow> x \<in> A \<and> canon x = u"
    and B: "B = {x \<in> A. canon x \<noteq> canon r}"
  shows "(seen(canon r \<mapsto> r)) u = Some x \<longleftrightarrow> x \<in> insert r B \<and> canon x = u"
proof (cases "u = canon r")
  case True
  then show ?thesis by (auto simp add: B)
next
  case False
  then show ?thesis by (auto simp add: B tab)
qed

lemma dedup_inv_append:
  assumes inv: "dedup_inv (seen, unique)" and none: "seen (canon r) = None"
  shows "dedup_inv (seen(canon r \<mapsto> r), unique @ [r])"
proof -
  from inv have d: "distinct (map canon unique)"
    and tab: "\<And>u x. seen u = Some x \<longleftrightarrow> x \<in> set unique \<and> canon x = u"
    by (simp_all add: dedup_inv_def)
  have fresh: "canon x \<noteq> canon r" if "x \<in> set unique" for x
  proof
    assume "canon x = canon r"
    with that have "seen (canon r) = Some x" by (simp add: tab)
    with none show False by simp
  qed
  then have B: "set unique = {x \<in> set unique. canon x \<noteq> canon r}" by blast
  have "canon r \<notin> canon ` set unique"
    using fresh by force
  with d have d': "distinct (map canon (unique @ [r]))"
    by simp
  have "\<forall>u x. (seen(canon r \<mapsto> r)) u = Some x \<longleftrightarrow> x \<in> set (unique @ [r]) \<and> canon x = u"
    using table_update [OF tab B] by simp
  with d' show ?thesis by (simp add: dedup_inv_def)
qed

lemma dedup_inv_replace:
  assumes inv: "dedup_inv (seen, unique)" and some: "seen (canon r) = Some e"
  shows "dedup_inv (seen(canon r \<mapsto> r), remove1 e unique @ [r])"
proof -
  from inv have d: "distinct (map canon unique)"
    and tab: "\<And>u x. seen u = Some x \<longleftrightarrow> x \<in> set unique \<and> canon x = u"
    by (simp_all add: dedup_inv_def)
  from d have du: "distinct unique" by (rule distinct_map [THEN iffD1, THEN conjunct1])
  from some have e: "e \<in> set unique" "canon e = canon r" by (simp_all add: tab)
  have only: "x = e" if "x \<in> set unique" and "canon x = canon r" for x
  proof -
    from that have "seen (canon r) = Some x" by (simp add: tab)
    with some show ?thesis by simp
  qed
  have set_rm: "set (remove1 e unique) = set unique - {e}"
    using du by simp
  have B: "set (remove1 e unique) = {x \<in> set unique. canon x \<noteq> canon r}"
  proof (rule set_eqI)
    fix x
    show "x \<in> set (remove1 e unique) \<longleftrightarrow> x \<in> {x \<in> set unique. canon x \<noteq> canon r}"
    proof (cases "x = e")
      case True
      with e show ?thesis by (simp add: set_rm)
    next
      case False
      with only [of x] show ?thesis by (auto simp add: set_rm)
    qed
  qed
  have "canon r \<notin> canon ` set (remove1 e unique)"
    unfolding B by force
  with distinct_map_remove1 [OF d, of e]
  have d': "distinct (map canon (remove1 e unique @ [r]))"
    by simp
  have "\<forall>u x. (seen(canon r \<mapsto> r)) u = Some x \<longleftrightarrow>
      x \<in> set (remove1 e unique @ [r]) \<and> canon x = u"
    using table_update [OF tab B] by simp
  with d' show ?thesis by (simp add: dedup_inv_def)
qed

lemma dedup_step_inv:
  assumes inv: "dedup_inv st"
  shows "\<exists>st'. dedup_step ratio_gt st r = Inr st' \<and> dedup_inv st'
           \<and> (snd st' = snd st \<or> snd st' = snd st @ [r]
                \<or> (\<exists>e. snd st' = remove1 e (snd st) @ [r]))"
proof -
  obtain seen unique where st: "st = (seen, unique)" by (cases st)
  note inv' = inv [unfolded st]
  show ?thesis
  proof (cases "seen (canon r)")
    case None
    show ?thesis
    proof (cases "list_ex (\<lambda>existing. is_content_similar ratio_gt (snippet r) (snippet existing))
               unique")
      case True
      with None have "dedup_step ratio_gt st r = Inr st"
        by (simp add: dedup_step_def st canon_def)
      with inv show ?thesis by simp
    next
      case False
      with None have "dedup_step ratio_gt st r = Inr (seen(canon r \<mapsto> r), unique @ [r])"
        by (simp add: dedup_step_def st canon_def)
      with dedup_inv_append [OF inv' None] show ?thesis by (simp add: st)
    qed
  next
    case (Some e)
    with inv' have e: "e \<in> set unique" by (simp add: dedup_inv_def)
    show ?thesis
    proof (cases "get_source_priority (source r) > get_source_priority (source e)")
      case True
      with Some e have "dedup_step ratio_gt st r
          = Inr (seen(canon r \<mapsto> r), remove1 e unique @ [r])"
        by (simp add: dedup_step_def st canon_def)
      with dedup_inv_replace [OF inv' Some] show ?thesis by (auto simp add: st)
    next
      case False
      with Some have "dedup_step ratio_gt st r = Inr st"
        by (simp add: dedup_step_def st canon_def)
      with inv show ?thesis by simp
    qed
  qed
qed

lemma subseq_remove1: "subseq (remove1 e xs) xs"
  by (induction xs) auto

lemma dedup_loop_subseq:
  assumes "dedup_inv st" and "subseq (snd st) pre"
  shows "\<exists>st'. dedup_loop ratio_gt st rs = Inr st' \<and> dedup_inv st' \<and> subseq (snd st') (pre @ rs)"
  using assms
proof (induction rs arbitrary: st pre)
  case Nil
  then show ?case by simp
next
  case (Cons r rs)
  from dedup_step_inv [OF Cons.prems(1), of ratio_gt r]
  obtain st1 where s1: "dedup_step ratio_gt st r = Inr st1" and i1: "dedup_inv st1"
    and shape: "snd st1 = snd st \<or> snd st1 = snd st @ [r]
                \<or> (\<exists>e. snd st1 = remove1 e (snd st) @ [r])"
    by blast
  have "subseq (snd st1) (pre @ [r])"
  proof -
    from shape consider "snd st1 = snd st" | "snd st1 = snd st @ [r]"
      | e where "snd st1 = remove1 e (snd st) @ [r]" by blast
    then show ?thesis
    proof cases
      case 1
      with Cons.prems(2) show ?thesis by (simp add: list_emb_prefix)
    next
      case 2
      with Cons.prems(2) show ?thesis by (simp add: list_emb_append_mono)
    next
      case 3
      have "subseq (remove1 e (snd st)) pre"
        using subseq_remove1 Cons.prems(2) by (rule subseq_order.trans)
      with 3 show ?thesis by (simp add: list_emb_append_mono)
    qed
  qed
  from Cons.IH [OF i1 this] s1 show ?case by simp
qed

lemma dedup_step_seen:
  assumes inv: "dedup_inv st"
    and nosim: "\<And>x. x \<in> set (snd st) \<Longrightarrow> canon x \<noteq> canon r
                  \<Longrightarrow> \<not> is_content_similar ratio_gt (snippet r) (snippet x)"
  shows "\<exists>st'. dedup_step ratio_gt st r = Inr st' \<and> dedup_inv st'
           \<and> fst st' = seen_step (fst st) r \<and> set (snd st') \<subseteq> insert r (set (snd st))"
proof -
  obtain seen unique where st: "st = (seen, unique)" by (cases st)
  note inv' = inv [unfolded st]
  from inv' have tab: "\<And>u x. seen u = Some x \<longleftrightarrow> x \<in> set unique \<and> canon x = u"
    by (simp add: dedup_inv_def)
  show ?thesis
  proof (cases "seen (canon r)")
    case None
    have "canon x \<noteq> canon r" if "x \<in> set unique" for x
    proof
      assume "canon x = canon r"
      with that have "seen (canon r) = Some x" by (simp add: tab)
      with None show False by simp
    qed
    then have "\<And>x. x \<in> set unique \<Longrightarrow> \<not> is_content_similar ratio_gt (snippet r) (snippet x)"
      using nosim by (simp add: st)
    then have ns: "\<not> list_ex (\<lambda>existing. is_content_similar ratio_gt (snippet r) (snippet existing))
        unique"
      by (simp add: list_ex_iff)
    with None have "dedup_step ratio_gt st r = Inr (seen(canon r \<mapsto> r), unique @ [r])"
      by (simp add: dedup_step_def st canon_def)
    with dedup_inv_append [OF inv' None] None show ?thesis
      by (auto simp add: st seen_step_def)
  next
    case (Some e)
    with inv' have e: "e \<in> set unique" by (simp add: dedup_inv_def)
    show ?thesis
    proof (cases "get_source_priority (source r) > get_source_priority (source e)")
      case True
      with Some e have "dedup_step ratio_gt st r
          = Inr (seen(canon r \<mapsto> r), remove1 e unique @ [r])"
        by (simp add: dedup_step_def st canon_def)
      moreover have "set (remove1 e unique) \<subseteq> set unique" by (rule set_remove1_subset)
      ultimately show ?thesis
        using dedup_inv_replace [OF inv' Some] Some True
        by (auto simp add: st seen_step_def)
    next
      case False
      with Some have "dedup_step ratio_gt st r = Inr st"
        by (simp add: dedup_step_def st canon_def)
      with inv Some False show ?thesis by (auto simp add: st seen_step_def)
    qed
  qed
qed

lemma dedup_loop_seen:
  assumes "dedup_inv st" and "set (snd st) \<subseteq> set earlier"
    and "no_near_duplicates_from ratio_gt earlier rs"
  shows "\<exists>st'. dedup_loop ratio_gt st rs = Inr st' \<and> dedup_inv st'
           \<and> fst st' = foldl seen_step (fst st) rs"
  using assms
proof (induction rs arbitrary: st earlier)
  case Nil
  then show ?case by simp
next
  case (Cons r rs)
  from Cons.prems(3) have here: "\<And>e. e \<in> set earlier \<Longrightarrow> canon e \<noteq> canon r
      \<Longrightarrow> \<not> is_content_similar ratio_gt (snippet r) (snippet e)"
    and rest: "no_near_duplicates_from ratio_gt (earlier @ [r]) rs"
    by (auto simp add: list_all_iff)
  have "\<And>x. x \<in> set (snd st) \<Longrightarrow> canon x \<noteq> canon r
      \<Longrightarrow> \<not> is_content_similar ratio_gt (snippet r) (snippet x)"
    using here Cons.prems(2) by blast
  from dedup_step_seen [OF Cons.prems(1) this]
  obtain st1 where s1: "dedup_step ratio_gt st r = Inr st1" and i1: "dedup_inv st1"
    and f1: "fst st1 = seen_step (fst st) r" and sub: "set (snd st1) \<subseteq> insert r (set (snd st))"
    by blast
  from sub Cons.prems(2) have "set (snd st1) \<subseteq> set (earlier @ [r])" by auto
  from Cons.IH [OF i1 this rest] s1 f1 show ?case by simp
qed

lemma foldl_seen_step:
  "foldl seen_step seen rs u =
     (case seen u of
        Some e \<Rightarrow> Some (best e (filter (\<lambda>r. canon r = u) rs))
      | None \<Rightarrow> (case filter (\<lambda>r. canon r = u) rs of
                   [] \<Rightarrow> None
                 | x # xs \<Rightarrow> Some (best x xs)))"
proof (induction rs arbitrary: seen)
  case Nil
  then show ?case by (simp split: option.split)
next
  case (Cons r rs)
  have unfold: "foldl seen_step seen (r # rs) u = foldl seen_step (seen_step seen r) rs u"
    by simp
  show ?case
  proof (cases "canon r = u")
    case True
    then have "seen_step seen r u =
        Some (case seen u of None \<Rightarrow> r
              | Some e \<Rightarrow> if get_source_priority (source r) > get_source_priority (source e)
                          then r else e)"
      by (simp add: seen_step_def split: option.split)
    with True show ?thesis
      unfolding unfold Cons.IH [of "seen_step seen r"]
      by (simp split: option.split)
  next
    case False
    then have "seen_step seen r u = seen u"
      by (simp add: seen_step_def split: option.split)
    with False show ?thesis
      unfolding unfold Cons.IH [of "seen_step seen r"] by (simp split: option.split)
  qed
qed

lemma filter_canon_inv:
  assumes "dedup_inv (seen, unique)"
  shows "filter (\<lambda>r. canon r = u) unique = (case seen u of Some e \<Rightarrow> [e] | None \<Rightarrow> [])"
proof -
  from assms have d: "distinct (map canon unique)"
    and tab: "\<And>u x. seen u = Some x \<longleftrightarrow> x \<in> set unique \<and> canon x = u"
    by (simp_all add: dedup_inv_def)
  have one: "distinct (map f xs) \<Longrightarrow> x \<in> set xs \<Longrightarrow> filter (\<lambda>r. f r = f x) xs = [x]"
    for f :: "search_result \<Rightarrow> string" and xs x
  proof (induction xs)
    case Nil
    then show ?case by simp
  next
    case (Cons a xs)
    show ?case
    proof (cases "a = x")
      case True
      with Cons.prems(1) have "f x \<notin> f ` set xs"
        by simp
      then have "\<forall>y\<in>set xs. f y \<noteq> f x"
        by (intro ballI notI) (drule sym, blast)
      then have "filter (\<lambda>r. f r = f x) xs = []"
        by (simp add: filter_empty_conv)
      with True show ?thesis by simp
    next
      case False
      with Cons.prems have "x \<in> set xs" and "f a \<noteq> f x" by auto
      with Cons show ?thesis by simp
    qed
  qed
  show ?thesis
  proof (cases "seen u")
    case None
    then have "\<And>x. x \<in> set unique \<Longrightarrow> canon x \<noteq> u"
      using tab by (metis option.distinct(1))
    with None show ?thesis by (simp add: filter_empty_conv)
  next
    case (Some e)
    then have "e \<in> set unique" "canon e = u" by (simp_all add: tab)
    with one [OF d, of e] Some show ?thesis by simp
  qed
qed

lemma dedup_groups:
  assumes "no_near_duplicates ratio_gt rs"
  shows "\<exists>out. deduplicate ratio_gt rs = Inr out \<and>
           filter (\<lambda>r. canon r = u) out = best_of (filter (\<lambda>r. canon r = u) rs)"
proof -
  let ?st0 = "(Map.empty, []) :: dedup_state"
  have "set (snd ?st0) \<subseteq> set []" by simp
  moreover have "no_near_duplicates_from ratio_gt [] rs"
    using assms by (simp add: no_near_duplicates_def)
  ultimately obtain st' where l: "dedup_loop ratio_gt ?st0 rs = Inr st'" and i: "dedup_inv st'"
    and f: "fst st' = foldl seen_step Map.empty rs"
    using dedup_loop_seen [of ?st0 "[]" ratio_gt rs, OF dedup_inv_init] by auto
  obtain seen unique where st: "st' = (seen, unique)" by (cases st')
  have "filter (\<lambda>r. canon r = u) unique = (case seen u of Some e \<Rightarrow> [e] | None \<Rightarrow> [])"
    using filter_canon_inv i st by simp
  also have "seen u = foldl seen_step Map.empty rs u"
    using f st by simp
  also have "(case foldl seen_step Map.empty rs u of Some e \<Rightarrow> [e] | None \<Rightarrow> [])
      = best_of (filter (\<lambda>r. canon r = u) rs)"
    by (simp add: foldl_seen_step best_of_def split: list.split)
  finally show ?thesis using l st by (simp add: deduplicate_def)
qed

lemma best_first_max:
  "\<exists>pre post. e # rs = pre @ best e rs # post
     \<and> (\<forall>r\<in>set pre. get_source_priority (source r) < get_source_priority (source (best e rs)))
     \<and> (\<forall>r\<in>set post. get_source_priority (source r) \<le> get_source_priority (source (best e rs)))"
proof (induction rs arbitrary: e rule: rev_induct)
  case Nil
  show ?case by (rule exI [of _ "[]"], rule exI [of _ "[]"]) simp
next
  case (snoc r rs)
  have b: "best e (rs @ [r]) = (if get_source_priority (source r)
        > get_source_priority (source (best e rs)) then r else best e rs)" for e
    by (induction rs arbitrary: e) simp_all
  from snoc [of e] obtain pre post where
    sp: "e # rs = pre @ best e rs # post"
    and lo: "\<forall>x\<in>set pre. get_source_priority (source x) < get_source_priority (source (best e rs))"
    and hi: "\<forall>x\<in>set post. get_source_priority (source x) \<le> get_source_priority (source (best e rs))"
    by blast
  show ?case
  proof (cases "get_source_priority (source r) > get_source_priority (source (best e rs))")
    case True
    have "\<forall>x\<in>set (e # rs). get_source_priority (source x) < get_source_priority (source r)"
      unfolding sp using lo hi True by fastforce
    with True show ?thesis
      by (intro exI [of _ "e # rs"] exI [of _ "[]"]) (simp add: b)
  next
    case False
    with sp lo hi show ?thesis
      by (intro exI [of _ pre] exI [of _ "post @ [r]"]) (auto simp add: b)
  qed
qed

lemmas dedup_eval_defs =
  deduplicate_def dedup_step_def Let_def is_content_similar_def same_text_def
  get_source_priority_def normalize_url_def lower_def lower_char_def split_first_def
  rstrip_slash_def sub_www_def sub_scheme_def

text \<open>
  C4 (as stated, refuted). \<open>page_ddg\<close> is seen first, then \<open>other_ddg\<close>; \<open>page_wiki\<close> has
  the canonical URL of \<open>page_ddg\<close> and the higher priority. It replaces \<open>page_ddg\<close> at
  the end of the output, not at the position where that URL was first seen.
\<close>

theorem deduplicate_not_encounter_order:
  "deduplicate same_text [page_ddg, other_ddg, page_wiki] = Inr [other_ddg, page_wiki]
   \<and> \<not> in_encounter_order [page_ddg, other_ddg, page_wiki] [other_ddg, page_wiki]"
  by (simp add: dedup_eval_defs in_encounter_order_def first_occurrences_def canon_def
      page_ddg_def other_ddg_def page_wiki_def)

text \<open>
  C4 (amended). Deduplication returns, and its output is a subsequence of the flattened
  input: the surviving results stand in the order in which they themselves occur in the
  input (a result that replaces an earlier one of the same canonical URL is appended at
  the end of the output at that moment).
\<close>

theorem deduplicate_subseq:
  "\<exists>out. deduplicate ratio_gt rs = Inr out \<and> subseq out rs"
proof -
  let ?st0 = "(Map.empty, []) :: dedup_state"
  from dedup_loop_subseq [of ?st0 "[]" ratio_gt rs, OF dedup_inv_init]
  obtain st' where "dedup_loop ratio_gt ?st0 rs = Inr st'"
    and "subseq (snd st') rs" by auto
  then show ?thesis by (auto simp add: deduplicate_def)
qed

text \<open>
  C5 (as stated, refuted). \<open>copy_wiki\<close> and \<open>late_ddg\<close> share a canonical URL and
  \<open>copy_wiki\<close> has the higher priority, but \<open>copy_wiki\<close> is dropped as a near-duplicate of
  \<open>first_ddg\<close> before its URL is recorded, and \<open>late_ddg\<close> is the one retained.
\<close>

theorem deduplicate_keeps_lower_priority:
  "canon copy_wiki = canon late_ddg
   \<and> get_source_priority (source late_ddg) < get_source_priority (source copy_wiki)
   \<and> deduplicate same_text [first_ddg, copy_wiki, late_ddg] = Inr [first_ddg, late_ddg]"
  by (simp add: dedup_eval_defs canon_def first_ddg_def copy_wiki_def late_ddg_def)

text \<open>
  C5 (amended). The output never holds two results with the same canonical URL. When no
  input result is content-similar to an earlier input result with a different canonical
  URL, the output retains, of all input results with one canonical URL, exactly one: the
  first of those with the highest priority (every earlier one has a strictly lower
  priority, every later one none higher). A Wikipedia result and a DuckDuckGo result for the same page, differing only
  by a trailing slash, leave the Wikipedia result alone, in either order.
\<close>

theorem deduplicate_keeps_best_per_url:
  "(\<exists>out. deduplicate ratio_gt rs = Inr out \<and> distinct (map canon out))
   \<and> (no_near_duplicates ratio_gt rs \<longrightarrow>
        (\<exists>out. deduplicate ratio_gt rs = Inr out \<and>
           filter (\<lambda>r. canon r = u) out = best_of (filter (\<lambda>r. canon r = u) rs)))
   \<and> (\<exists>pre post. e # g = pre @ best e g # post
        \<and> (\<forall>r\<in>set pre. get_source_priority (source r) < get_source_priority (source (best e g)))
        \<and> (\<forall>r\<in>set post. get_source_priority (source r) \<le> get_source_priority (source (best e g))))
   \<and> deduplicate ratio_gt
        [\<lparr> title = t1, snippet = s1, url = ''https://en.wikipedia.org/wiki/Photosynthesis'',
            source = ''Wikipedia'' \<rparr>,
         \<lparr> title = t2, snippet = s2, url = ''https://en.wikipedia.org/wiki/Photosynthesis/'',
            source = ''DuckDuckGo'' \<rparr>]
       = Inr [\<lparr> title = t1, snippet = s1, url = ''https://en.wikipedia.org/wiki/Photosynthesis'',
                source = ''Wikipedia'' \<rparr>]
   \<and> deduplicate ratio_gt
        [\<lparr> title = t2, snippet = s2, url = ''https://en.wikipedia.org/wiki/Photosynthesis/'',
            source = ''DuckDuckGo'' \<rparr>,
         \<lparr> title = t1, snippet = s1, url = ''https://en.wikipedia.org/wiki/Photosynthesis'',
            source = ''Wikipedia'' \<rparr>]
       = Inr [\<lparr> title = t1, snippet = s1, url = ''https://en.wikipedia.org/wiki/Photosynthesis'',
                source = ''Wikipedia'' \<rparr>]"
proof -
  let ?st0 = "(Map.empty, []) :: dedup_state"
  from dedup_loop_subseq [of ?st0 "[]" ratio_gt rs, OF dedup_inv_init]
  obtain st' where "dedup_loop ratio_gt ?st0 rs = Inr st'" and "dedup_inv st'"
    by auto
  then have a: "\<exists>out. deduplicate ratio_gt rs = Inr out \<and> distinct (map canon out)"
    by (auto simp add: deduplicate_def dedup_inv_def)
  have b: "no_near_duplicates ratio_gt rs \<longrightarrow>
        (\<exists>out. deduplicate ratio_gt rs = Inr out \<and>
           filter (\<lambda>r. canon r = u) out = best_of (filter (\<lambda>r. canon r = u) rs))"
    using dedup_groups by blast
  have d1: "deduplicate ratio_gt
        [\<lparr> title = t1, snippet = s1, url = ''https://en.wikipedia.org/wiki/Photosynthesis'',
            source = ''Wikipedia'' \<rparr>,
         \<lparr> title = t2, snippet = s2, url = ''https://en.wikipedia.org/wiki/Photosynthesis/'',
            source = ''DuckDuckGo'' \<rparr>]
       = Inr [\<lparr> title = t1, snippet = s1, url = ''https://en.wikipedia.org/wiki/Photosynthesis'',
                source = ''Wikipedia'' \<rparr>]"
    by (simp add: dedup_eval_defs)
  have d2: "deduplicate ratio_gt
        [\<lparr> title = t2, snippet = s2, url = ''https://en.wikipedia.org/wiki/Photosynthesis/'',
            source = ''DuckDuckGo'' \<rparr>,
         \<lparr> title = t1, snippet = s1, url = ''https://en.wikipedia.org/wiki/Photosynthesis'',
            source = ''Wikipedia'' \<rparr>]
       = Inr [\<lparr> title = t1, snippet = s1, url = ''https://en.wikipedia.org/wiki/Photosynthesis'',
                source = ''Wikipedia'' \<rparr>]"
    by (simp add: dedup_eval_defs)
  from a b best_first_max [of e g] d1 d2 show ?thesis by (intro conjI)
qed

theorem deduplicate_keeps_best_per_url_witness:
  "no_near_duplicates same_text [first_ddg, late_ddg, best_wiki]
   \<and> deduplicate same_text [first_ddg, late_ddg, best_wiki] = Inr [first_ddg, best_wiki]
   \<and> filter (\<lambda>r. canon r = ''b.com'') [first_ddg, best_wiki] = [best_wiki]
   \<and> best_of (filter (\<lambda>r. canon r = ''b.com'') [first_ddg, late_ddg, best_wiki]) = [best_wiki]"
proof -
  have n: "no_near_duplicates same_text [first_ddg, late_ddg, best_wiki]"
    by (simp add: no_near_duplicates_def is_content_similar_def same_text_def canon_def
        first_ddg_def late_ddg_def best_wiki_def lower_def lower_char_def)
  have d: "deduplicate same_text [first_ddg, late_ddg, best_wiki] = Inr [first_ddg, best_wiki]"
    by (simp add: dedup_eval_defs first_ddg_def late_ddg_def best_wiki_def)
  have f: "filter (\<lambda>r. canon r = ''b.com'') [first_ddg, best_wiki] = [best_wiki]"
    by (simp add: canon_def first_ddg_def best_wiki_def normalize_url_defs)
  from deduplicate_keeps_best_per_url
    [of same_text "[first_ddg, late_ddg, best_wiki]" "''b.com''" first_ddg "[]"] n d f
  show ?thesis by simp
qed

section \<open>Properties of scoring, ranking and the summary\<close>

lemma calculate_relevance_bounds:
  assumes "distinct qk"
  shows "0 \<le> calculate_relevance r qk \<and> calculate_relevance r qk \<le> 1"
proof -
  let ?ws = "remdups (split_ws (lower (title r @ '' '' @ snippet r)))"
  let ?i = "filter (\<lambda>w. w \<in> set ?ws) qk"
  let ?u = "remdups (qk @ ?ws)"
  have "length ?i \<le> length qk" by simp
  also have "length qk = card (set qk)" using assms by (simp add: distinct_card)
  also have "card (set qk) \<le> card (set qk \<union> set ?ws)"
    by (intro card_mono) auto
  also have "card (set qk \<union> set ?ws) = length ?u"
    by (simp add: length_remdups_card_conv)
  finally have le: "real (length ?i) \<le> real (length ?u)" by simp
  have eq: "calculate_relevance r qk = (if ?u = [] then 0 else real (length ?i) / real (length ?u))"
    unfolding calculate_relevance_def Let_def ..
  show ?thesis
  proof (cases "?u = []")
    case True
    then show ?thesis unfolding eq by simp
  next
    case False
    then have "0 < real (length ?u)" by simp
    with le have "real (length ?i) / real (length ?u) \<le> 1"
      by (simp only: divide_le_eq_1_pos)
    moreover have "0 \<le> real (length ?i) / real (length ?u)" by simp
    ultimately show ?thesis unfolding eq using False by simp
  qed
qed

lemma get_source_priority_bounds: "1 \<le> get_source_priority s \<and> get_source_priority s \<le> 5"
  by (simp add: get_source_priority_def)

lemma calculate_consensus_bounds:
  "0 \<le> calculate_consensus r raw \<and> calculate_consensus r raw \<le> 1"
  by (simp add: calculate_consensus_def Let_def)

lemma calculate_quality_bounds:
  "0 \<le> calculate_quality r \<and> calculate_quality r \<le> 1"
  by (simp add: calculate_quality_def Let_def)

lemma weighted_sum_bounds:
  fixes a b c d :: real
  assumes "0 \<le> a" "a \<le> 1" "0 \<le> b" "b \<le> 1" "0 \<le> c" "c \<le> 1" "0 \<le> d" "d \<le> 1"
  shows "0 \<le> a * (4 / 10) + b * (3 / 10) + c * (2 / 10) + d * (1 / 10)"
    and "a * (4 / 10) + b * (3 / 10) + c * (2 / 10) + d * (1 / 10) \<le> 1"
  using assms by simp_all

lemma score_result_bounds:
  assumes "distinct qk"
  shows "0 \<le> relevance (sr_scores (score_result qk raw r))
    \<and> relevance (sr_scores (score_result qk raw r)) \<le> 1
    \<and> 0 \<le> authority (sr_scores (score_result qk raw r))
    \<and> authority (sr_scores (score_result qk raw r)) \<le> 1
    \<and> 0 \<le> consensus (sr_scores (score_result qk raw r))
    \<and> consensus (sr_scores (score_result qk raw r)) \<le> 1
    \<and> 0 \<le> quality (sr_scores (score_result qk raw r))
    \<and> quality (sr_scores (score_result qk raw r)) \<le> 1
    \<and> final_score (score_result qk raw r)
        = 4 / 10 * relevance (sr_scores (score_result qk raw r))
          + 3 / 10 * authority (sr_scores (score_result qk raw r))
          + 2 / 10 * consensus (sr_scores (score_result qk raw r))
          + 1 / 10 * quality (sr_scores (score_result qk raw r))
    \<and> 0 \<le> final_score (score_result qk raw r)
    \<and> final_score (score_result qk raw r) \<le> 1"
proof -
  have sc: "sr_scores (score_result qk raw r) =
      \<lparr> relevance = calculate_relevance r qk,
        authority = real (get_source_priority (source r)) / 5,
        consensus = calculate_consensus r raw,
        quality = calculate_quality r \<rparr>"
    by (simp add: score_result_def Let_def)
  have fin: "final_score (score_result qk raw r) =
      calculate_relevance r qk * (4 / 10) + real (get_source_priority (source r)) / 5 * (3 / 10)
      + calculate_consensus r raw * (2 / 10) + calculate_quality r * (1 / 10)"
    by (simp add: score_result_def Let_def)
  note rel = calculate_relevance_bounds [OF assms, of r]
  have au: "0 \<le> real (get_source_priority (source r)) / 5"
    "real (get_source_priority (source r)) / 5 \<le> 1"
    using get_source_priority_bounds [of "source r"] by simp_all
  note co = calculate_consensus_bounds [of r raw]
  note qu = calculate_quality_bounds [of r]
  have f0: "0 \<le> final_score (score_result qk raw r)"
    unfolding fin using rel au co qu by (intro weighted_sum_bounds(1)) simp_all
  have f1: "final_score (score_result qk raw r) \<le> 1"
    unfolding fin using rel au co qu by (intro weighted_sum_bounds(2)) simp_all
  have feq: "final_score (score_result qk raw r)
        = 4 / 10 * relevance (sr_scores (score_result qk raw r))
          + 3 / 10 * authority (sr_scores (score_result qk raw r))
          + 2 / 10 * consensus (sr_scores (score_result qk raw r))
          + 1 / 10 * quality (sr_scores (score_result qk raw r))"
    unfolding fin sc by simp
  from rel au co qu f0 f1 feq show ?thesis unfolding sc by simp
qed



lemma set_sorted_reverse: "set (sorted_reverse xs) = set xs"
  by (simp add: sorted_reverse_def)

lemma slice_to_take: "\<exists>n. slice_to m xs = take n xs"
proof (cases m)
  case None
  then have "slice_to m xs = take (length xs) xs" by (simp add: slice_to_def)
  then show ?thesis ..
next
  case (Some k)
  then show ?thesis by (auto simp add: slice_to_def)
qed


lemma synthesize_Inr:
  assumes "deduplicate ratio_gt (concat (map snd raw)) = Inr unique"
  shows "synthesize ratio_gt set_order query raw m =
     Inr \<lparr> results = slice_to m (sorted_reverse (score_results query unique raw)),
           summary = generate_summary set_order
             (slice_to m (sorted_reverse (score_results query unique raw))) raw,
           engine_stats = map (\<lambda>(engine, rs). (engine, length rs)) raw,
           total_raw = length (concat (map snd raw)),
           total_unique = length unique \<rparr>"
  using assms by (simp add: synthesize_def Let_def)

lemma scores_in_range_score_result:
  "distinct qk \<Longrightarrow> scores_in_range (score_result qk raw r)"
  unfolding scores_in_range_def by (rule score_result_bounds)

lemma list_all_score_results: "list_all scores_in_range (score_results query rs raw)"
  by (simp add: score_results_def Let_def list_all_iff scores_in_range_score_result)

text \<open>
  C6. Every scored result has its relevance, authority, consensus and quality in [0,1],
  its final score is 0.4 relevance + 0.3 authority + 0.2 consensus + 0.1 quality, and the
  final score lies in [0,1]; this holds for the output of the scoring step on any list of
  results and for every result that synthesis returns. (Floats are exact reals here.)
\<close>

theorem scores_confined_to_unit_interval:
  "list_all scores_in_range (score_results query rs raw)
   \<and> (\<exists>out. synthesize ratio_gt set_order query raw m = Inr out
          \<and> list_all scores_in_range (results out))"
proof -
  from deduplicate_subseq [of ratio_gt "concat (map snd raw)"]
  obtain unique where u: "deduplicate ratio_gt (concat (map snd raw)) = Inr unique" by blast
  let ?ranked = "sorted_reverse (score_results query unique raw)"
  obtain n where n: "slice_to m ?ranked = take n ?ranked"
    using slice_to_take by blast
  have "set (take n ?ranked) \<subseteq> set (score_results query unique raw)"
    using set_take_subset [of n ?ranked] by (simp add: set_sorted_reverse)
  with list_all_score_results [of query unique raw]
  have "list_all scores_in_range (take n ?ranked)"
    unfolding list_all_iff by blast
  then show ?thesis
    using list_all_score_results [of query rs raw] by (simp add: synthesize_Inr [OF u] n)
qed


text \<open>What the summary of a non-empty list reports: the length of the list it is given and
  the number of raw results.\<close>

lemma generate_summary_counts:
  assumes "rs \<noteq> []"
  shows "\<exists>rest. generate_summary set_order rs raw =
     ''Found '' @ str_nat (length rs) @ '' relevant results from ''
       @ str_nat (length (concat (map snd raw))) @ '' total sources. '' @ rest"
proof -
  have "sum_list (map (\<lambda>r. length (snd r)) raw) = length (concat (map snd raw))"
    by (simp add: length_concat comp_def)
  with assms show ?thesis
    by (simp add: generate_summary_def Let_def del: str_nat.simps)
qed

text \<open>
  C3 (the code at the failing input). Two results survive deduplication and the list is
  cut to one: \<open>total_unique\<close> is 2, and the summary reports 1, the length of the
  truncated list.
\<close>

theorem synthesize_summary_counts_truncated:
  "(case synthesize ratio_gt set_order ''page'' [(''DuckDuckGo'', [page_ddg, other_ddg])] (Some 1) of
      Inr out \<Rightarrow> total_unique out = 2 \<and> total_raw out = 2 \<and> length (results out) = 1
        \<and> take 47 (summary out) = ''Found 1 relevant results from 2 total sources. ''
    | Inl e \<Rightarrow> False)"
proof -
  have d: "deduplicate ratio_gt (concat (map snd [(''DuckDuckGo'', [page_ddg, other_ddg])]))
      = Inr [page_ddg, other_ddg]"
    by (simp add: deduplicate_def dedup_step_def Let_def is_content_similar_def
        get_source_priority_def normalize_url_defs page_ddg_def other_ddg_def)
  have l: "length (slice_to (Some 1) (sorted_reverse
      (score_results ''page'' [page_ddg, other_ddg] [(''DuckDuckGo'', [page_ddg, other_ddg])]))) = 1"
    by (simp add: slice_to_def sorted_reverse_def score_results_def Let_def)
  then obtain x where x: "slice_to (Some 1) (sorted_reverse
      (score_results ''page'' [page_ddg, other_ddg] [(''DuckDuckGo'', [page_ddg, other_ddg])])) = [x]"
    by (auto simp add: length_Suc_conv)
  show ?thesis
    unfolding synthesize_Inr [OF d] x
    by (simp add: generate_summary_def Let_def)
qed

section \<open>Properties of the query planner\<close>

lemma unique_loop_inv:
  assumes "seen = set (map (\<lambda>s. strip (lower s)) u)"
    and "distinct (map (\<lambda>s. strip (lower s)) u)" and "length u \<le> 5"
  shows "\<exists>u'. fst (unique_loop (u, seen) qs) = u @ u'
           \<and> distinct (map (\<lambda>s. strip (lower s)) (u @ u')) \<and> length (u @ u') \<le> 5"
  using assms
proof (induction qs arbitrary: u seen)
  case Nil
  then show ?case by simp
next
  case (Cons q qs)
  show ?case
  proof (cases "strip (lower q) \<notin> seen \<and> length u < 5")
    case True
    have "\<exists>u'. fst (unique_loop (u @ [q], insert (strip (lower q)) seen) qs) = (u @ [q]) @ u'
           \<and> distinct (map (\<lambda>s. strip (lower s)) ((u @ [q]) @ u')) \<and> length ((u @ [q]) @ u') \<le> 5"
      using True Cons.prems by (intro Cons.IH) auto
    then obtain u' where "fst (unique_loop (u @ [q], insert (strip (lower q)) seen) qs) = u @ q # u'"
      and "distinct (map (\<lambda>s. strip (lower s)) (u @ q # u'))" and "length (u @ q # u') \<le> 5"
      by auto
    with True show ?thesis
      by (intro exI [of _ "q # u'"]) simp
  next
    case False
    then have "unique_loop (u, seen) (q # qs) = unique_loop (u, seen) qs"
      by auto
    with Cons.IH [OF Cons.prems] show ?thesis by simp
  qed
qed

lemma candidate_queries_head: "\<exists>cs. candidate_queries q = q # cs"
  by (simp add: candidate_queries_def Let_def)

lemma breakdown_query_shape:
  "\<exists>rest. breakdown_query q = q # rest
     \<and> distinct (map (\<lambda>s. strip (lower s)) (q # rest)) \<and> length (q # rest) \<le> 5"
proof -
  obtain cs where cs: "candidate_queries q = q # cs"
    using candidate_queries_head by blast
  have first: "unique_loop ([], {}) (q # cs) = unique_loop ([q], {strip (lower q)}) cs"
    by simp
  from unique_loop_inv [of "{strip (lower q)}" "[q]" cs]
  obtain u' where u: "fst (unique_loop ([q], {strip (lower q)}) cs) = [q] @ u'"
    and d: "distinct (map (\<lambda>s. strip (lower s)) ([q] @ u'))" and l: "length ([q] @ u') \<le> 5"
    by auto
  from u l have "breakdown_query q = q # u'"
    by (simp add: breakdown_query_def cs first)
  with d l show ?thesis by simp
qed

lemma detect_intent_in_range:
  "detect_intent_in ps q \<in> insert ''general'' (set (map fst ps))"
  by (induction ps q rule: detect_intent_in.induct) auto

lemma detect_intent_not_factual: "detect_intent q \<noteq> ''factual''"
proof -
  have "detect_intent q \<in> insert ''general'' (set (map fst entity_patterns))"
    unfolding detect_intent_def by (rule detect_intent_in_range)
  then show ?thesis by (auto simp add: entity_patterns_def)
qed

text \<open>
  C9. For every query the planner's list starts with the query itself, holds no two
  entries that are equal after lower-casing and trimming, and has at most 5 entries; for
  ``what is photosynthesis'' it is the query followed by the definition, explanation and
  examples sub-queries.
\<close>

theorem breakdown_query_first_unique_capped:
  "(\<exists>rest. breakdown_query q = q # rest)
   \<and> distinct (map (\<lambda>s. strip (lower s)) (breakdown_query q))
   \<and> length (breakdown_query q) \<le> 5
   \<and> breakdown_query ''what is photosynthesis'' =
       [''what is photosynthesis'', ''photosynthesis definition'',
        ''photosynthesis explanation'', ''photosynthesis examples'']"
proof -
  have "breakdown_query ''what is photosynthesis'' =
       [''what is photosynthesis'', ''photosynthesis definition'',
        ''photosynthesis explanation'', ''photosynthesis examples'']"
    by code_simp
  with breakdown_query_shape [of q] show ?thesis by auto
qed

text \<open>
  C2 (the code at the failing input). \<open>_detect_intent\<close> names the intent of a ``who''
  query \<open>person\<close> and never answers \<open>factual\<close>, so the branch that would add the
  joined keywords and the facts query is never taken: the planner returns the query alone.
\<close>

theorem factual_intent_never_detected:
  "detect_intent q \<noteq> ''factual''
   \<and> detect_intent (lower ''who invented telephone'') = ''person''
   \<and> extract_keywords ''who invented telephone'' = [''invented'', ''telephone'']
   \<and> breakdown_query ''who invented telephone'' = [''who invented telephone'']"
proof -
  have a: "detect_intent (lower ''who invented telephone'') = ''person''"
    by code_simp
  have b: "extract_keywords ''who invented telephone'' = [''invented'', ''telephone'']"
    by code_simp
  have c: "breakdown_query ''who invented telephone'' = [''who invented telephone'']"
    by code_simp
  from detect_intent_not_factual [of q] a b c show ?thesis by (intro conjI)
qed

section \<open>Properties of the orchestrator\<close>

lemma create_tasks_eq:
  assumes "sub_queries \<noteq> []"
  shows "create_tasks mr timeout sub_queries tasks es =
     Inr (tasks @ map (\<lambda>(i, e). settle mr timeout sub_queries i e)
                    (zip [length tasks ..< length tasks + length es] es))"
proof (induction es arbitrary: tasks)
  case Nil
  then show ?case by simp
next
  case (Cons e es)
  obtain n g where e: "e = (n, g)" by (cases e)
  have "[length tasks ..< length tasks + length (e # es)]
      = length tasks # [Suc (length tasks) ..< Suc (length tasks) + length es]"
    by (simp add: upt_rec)
  then show ?case
    using assms by (simp add: e Cons.IH Let_def settle_def)
qed

lemma settle_not_exception: "\<not> is_exception (settle mr timeout sub_queries i e)"
  by (simp add: settle_def search_with_timeout_def is_exception_def
      split: outcome.split raised.split)

lemma foldl_dict_set_distinct:
  fixes kvs :: "(string \<times> task_result) list"
  assumes "distinct (map fst kvs)" and "set (map fst kvs) \<inter> set (map fst acc) = {}"
    and "\<forall>kv\<in>set kvs. \<not> is_exception (snd kv)"
  shows "foldl (\<lambda>d (k, v). if is_exception v then dict_set k (Results []) d else dict_set k v d)
           acc kvs = acc @ kvs"
  using assms
proof (induction kvs arbitrary: acc)
  case Nil
  then show ?case by simp
next
  case (Cons kv kvs)
  obtain k v where kv: "kv = (k, v)" by (cases kv)
  have fresh: "k \<notin> fst ` set acc \<Longrightarrow> dict_set k v acc = acc @ [(k, v)]"
    for acc :: "(string \<times> task_result) list"
    by (induction acc) auto
  from Cons.prems have "k \<notin> fst ` set acc" by (auto simp add: kv)
  then have step: "dict_set k v acc = acc @ [(k, v)]" by (rule fresh)
  from Cons.prems(3) have nv: "\<not> is_exception v" by (simp add: kv)
  have "foldl (\<lambda>d (k, v). if is_exception v then dict_set k (Results []) d else dict_set k v d)
      (acc @ [(k, v)]) kvs = (acc @ [(k, v)]) @ kvs"
    using Cons.prems by (intro Cons.IH) (auto simp add: kv)
  then show ?case by (simp add: kv step nv)
qed

lemma search_all_eq:
  assumes "sub_queries \<noteq> []" and "distinct (map fst engines)"
  shows "search_all engines mr sub_queries timeout =
     Inr (map (\<lambda>(i, e). (fst e, settle mr timeout sub_queries i e))
            (zip [0 ..< length engines] engines))"
proof -
  let ?rs = "map (\<lambda>(i, e). settle mr timeout sub_queries i e) (zip [0 ..< length engines] engines)"
  have c: "create_tasks mr timeout sub_queries [] engines = Inr ?rs"
    using create_tasks_eq [OF assms(1), of mr timeout "[]" engines] by simp
  have z: "zip (map fst engines) ?rs
      = map (\<lambda>(i, e). (fst e, settle mr timeout sub_queries i e)) (zip [0 ..< length engines] engines)"
    by (rule nth_equalityI) simp_all
  have d: "distinct (map fst (zip (map fst engines) ?rs))"
    using assms(2) by (simp add: map_fst_zip)
  have ne: "\<forall>kv\<in>set (zip (map fst engines) ?rs). \<not> is_exception (snd kv)"
  proof
    fix kv assume kv: "kv \<in> set (zip (map fst engines) ?rs)"
    obtain k v where p: "kv = (k, v)" by (cases kv)
    from kv have "v \<in> set ?rs" unfolding p by (rule set_zip_rightD)
    then obtain i e where "v = settle mr timeout sub_queries i e" by auto
    then show "\<not> is_exception (snd kv)"
      by (simp add: p settle_not_exception)
  qed
  have "foldl (\<lambda>d (k, v). if is_exception v then dict_set k (Results []) d else dict_set k v d)
      [] (zip (map fst engines) ?rs) = [] @ zip (map fst engines) ?rs"
    using d ne by (intro foldl_dict_set_distinct) simp_all
  with c z show ?thesis by (simp add: search_all_def)
qed

lemma yield_loop_results:
  assumes "\<forall>i\<in>set completion. \<exists>rs. task_results ! i = Results rs \<and> f i = (fst (engines ! i), rs)"
  shows "yield_loop engines task_results completion = Inr (map f completion)"
  using assms
proof (induction completion)
  case Nil
  then show ?case by simp
next
  case (Cons i rest)
  from Cons.prems obtain rs where "task_results ! i = Results rs" "f i = (fst (engines ! i), rs)"
    by auto
  moreover from Cons have "yield_loop engines task_results rest = Inr (map f rest)" by simp
  ultimately show ?case by simp
qed

lemma sum_list_map_mset_cong:
  fixes g :: "'a \<Rightarrow> nat"
  assumes "mset xs = mset ys"
  shows "sum_list (map g xs) = sum_list (map g ys)"
proof -
  have "sum_mset (image_mset g (mset xs)) = sum_mset (image_mset g (mset ys))"
    by (simp only: assms)
  then have "sum_mset (mset (map g xs)) = sum_mset (mset (map g ys))"
    by (simp only: mset_map)
  then show ?thesis
    by (simp only: sum_mset_sum_list)
qed




text \<open>
  C10. When every engine is a pure function of its query and result cap, there is at
  least one sub-query, and every task settles exactly once, batch mode and streaming mode
  both return, every entry of the batch map is a list of results, the multiset of
  streamed pairs is the multiset of the entries of the batch map, and the total numbers
  of results agree.
\<close>

theorem streaming_matches_batch:
  assumes "sub_queries \<noteq> []" and "distinct (map fst pure_engines)"
    and "mset completion = mset [0 ..< length pure_engines]"
  shows "\<exists>batch pairs.
       search_all (map (\<lambda>(name, f). (name, pure_engine f)) pure_engines) mr sub_queries timeout
         = Inr (as_entries batch)
     \<and> search_all_streaming (map (\<lambda>(name, f). (name, pure_engine f)) pure_engines) mr
           sub_queries completion = Inr pairs
     \<and> mset pairs = mset batch
     \<and> total_results pairs = total_results batch"
proof -
  define engines where "engines = map (\<lambda>(name, f). (name, pure_engine f)) pure_engines"
  have len: "length engines = length pure_engines" by (simp add: engines_def)
  have names: "map fst engines = map fst pure_engines"
    by (simp add: engines_def case_prod_unfold comp_def)
  have in_range: "\<forall>i\<in>set completion. i < length engines"
  proof
    fix i assume "i \<in> set completion"
    then have "i \<in># mset completion" by simp
    then have "i \<in># mset [0 ..< length pure_engines]" by (simp only: assms(3))
    then show "i < length engines" by (simp add: len)
  qed
  let ?g = "\<lambda>i. snd (pure_engines ! i) (sub_queries ! (i mod length sub_queries)) mr"
  have settled: "settle mr t sub_queries i (engines ! i) = Results (?g i)"
    if "i < length engines" for i t
    using that by (simp add: engines_def settle_def search_with_timeout_def pure_engine_def
        case_prod_unfold)
  let ?f = "\<lambda>i. (fst (engines ! i), ?g i)"
  have batch: "search_all engines mr sub_queries timeout
      = Inr (as_entries (map ?f [0 ..< length engines]))"
  proof -
    have "map (\<lambda>(i, e). (fst e, settle mr timeout sub_queries i e))
            (zip [0 ..< length engines] engines) = as_entries (map ?f [0 ..< length engines])"
      by (rule nth_equalityI) (simp_all add: as_entries_def settled)
    then show ?thesis
      using search_all_eq [OF assms(1), of engines mr timeout] assms(2) names by simp
  qed
  let ?rs = "map (\<lambda>(i, e). settle mr 8 sub_queries i e) (zip [0 ..< length engines] engines)"
  have c: "create_tasks mr 8 sub_queries [] engines = Inr ?rs"
    using create_tasks_eq [OF assms(1), of mr 8 "[]" engines] by simp
  have "\<forall>i\<in>set completion. \<exists>rs. ?rs ! i = Results rs \<and> ?f i = (fst (engines ! i), rs)"
    using in_range by (simp add: settled)
  then have "yield_loop engines ?rs completion = Inr (map ?f completion)"
    by (rule yield_loop_results)
  with c have stream: "search_all_streaming engines mr sub_queries completion
      = Inr (map ?f completion)"
    by (simp add: search_all_streaming_def)
  have m: "mset (map ?f completion) = mset (map ?f [0 ..< length engines])"
    unfolding mset_map len assms(3) ..
  have t: "total_results (map ?f completion) = total_results (map ?f [0 ..< length engines])"
    unfolding total_results_def by (rule sum_list_map_mset_cong [OF m])
  show ?thesis
    unfolding engines_def [symmetric]
  proof (intro exI conjI)
    show "search_all engines mr sub_queries timeout
        = Inr (as_entries (map ?f [0 ..< length engines]))"
      by (rule batch)
    show "search_all_streaming engines mr sub_queries completion = Inr (map ?f completion)"
      by (rule stream)
    show "mset (map ?f completion) = mset (map ?f [0 ..< length engines])"
      by (rule m)
    show "total_results (map ?f completion) = total_results (map ?f [0 ..< length engines])"
      by (rule t)
  qed
qed

theorem streaming_matches_batch_witness:
  "[''q''] \<noteq> []
   \<and> distinct (map fst [(''Wikipedia'', wiki_fn), (''DuckDuckGo'', ddg_fn)])
   \<and> mset [1, 0] = mset [0 ..< length [(''Wikipedia'', wiki_fn), (''DuckDuckGo'', ddg_fn)]]
   \<and> search_all (map (\<lambda>(name, f). (name, pure_engine f))
          [(''Wikipedia'', wiki_fn), (''DuckDuckGo'', ddg_fn)]) 10 [''q''] 15
       = Inr (as_entries [(''Wikipedia'', [page_wiki]), (''DuckDuckGo'', [page_ddg, other_ddg])])
   \<and> search_all_streaming (map (\<lambda>(name, f). (name, pure_engine f))
          [(''Wikipedia'', wiki_fn), (''DuckDuckGo'', ddg_fn)]) 10 [''q''] [1, 0]
       = Inr [(''DuckDuckGo'', [page_ddg, other_ddg]), (''Wikipedia'', [page_wiki])]"
proof -
  have s: "[''q''] \<noteq> ([] :: string list)" by simp
  have d: "distinct (map fst [(''Wikipedia'', wiki_fn), (''DuckDuckGo'', ddg_fn)])"
    by simp
  have m: "mset [1, 0] = mset [0 ..< length [(''Wikipedia'', wiki_fn), (''DuckDuckGo'', ddg_fn)]]"
    by (simp add: upt_rec)
  have b: "search_all (map (\<lambda>(name, f). (name, pure_engine f))
          [(''Wikipedia'', wiki_fn), (''DuckDuckGo'', ddg_fn)]) 10 [''q''] 15
       = Inr (as_entries [(''Wikipedia'', [page_wiki]), (''DuckDuckGo'', [page_ddg, other_ddg])])"
    by (simp add: search_all_def search_with_timeout_def pure_engine_def wiki_fn_def
        ddg_fn_def is_exception_def as_entries_def Let_def)
  have p: "search_all_streaming (map (\<lambda>(name, f). (name, pure_engine f))
          [(''Wikipedia'', wiki_fn), (''DuckDuckGo'', ddg_fn)]) 10 [''q''] [1, 0]
       = Inr [(''DuckDuckGo'', [page_ddg, other_ddg]), (''Wikipedia'', [page_wiki])]"
    by (simp add: search_all_streaming_def search_with_timeout_def pure_engine_def wiki_fn_def
        ddg_fn_def Let_def)
  from streaming_matches_batch [OF s d m, of 10 15] s d m b p show ?thesis by simp
qed

end
